theory Spec2Isabelle
  imports Complex_Main "HOL-Library.Sublist"
begin

section \<open>The orchestrator module (agent/orchestrator.py)\<close>

text \<open>
  The module holds two classes, \<^verbatim>\<open>Orchestrator\<close> (periodic tasks) and
  \<^verbatim>\<open>TriggerManager\<close> (keyword and mention rules). Both call functions supplied
  by their owner and write to the module's logger. The embedding makes these effects
  explicit:
  \<^item> the owner's callbacks act on an outside world of type \<open>'w\<close>; a call either returns
    or raises, and in both cases leaves a new world behind;
  \<^item> the logger is the list of the records written so far;
  \<^item> \<^verbatim>\<open>Task\<close> objects are mutable and shared by reference (the list
    \<^verbatim>\<open>self.tasks\<close> and every running task loop hold the same object), so they live in
    a heap addressed by references;
  \<^item> \<^verbatim>\<open>datetime.now()\<close> and the draw of \<^verbatim>\<open>random.random()\<close> are inputs of the
    function that reads them;
  \<^item> Python floats are idealised as reals.
  A callback is taken to be atomic, and to act on the world only: it does not call back
  into the object that runs it.
\<close>

subsection \<open>Exceptions, outcomes and the logger\<close>

text \<open>
  \<^verbatim>\<open>except Exception\<close> catches the instances of \<^verbatim>\<open>Exception\<close> and of its
  subclasses; \<^verbatim>\<open>KeyboardInterrupt\<close>, \<^verbatim>\<open>SystemExit\<close> and
  \<^verbatim>\<open>asyncio.CancelledError\<close> derive from \<^verbatim>\<open>BaseException\<close> only. The string
  is what \<^verbatim>\<open>str(e)\<close> gives.
\<close>

datatype exn = Exception string | BaseException string

datatype ('a, 's) outcome = Return 'a 's | Raise exn 's

fun final :: "('a, 's) outcome \<Rightarrow> 's" where
  "final (Return x s) = s"
| "final (Raise e s) = s"

fun raised :: "('a, 's) outcome \<Rightarrow> exn option" where
  "raised (Return x s) = None"
| "raised (Raise e s) = Some e"

text \<open>
  A log record keeps the level and the pieces of the f-string in order: the literal
  text as it stands in the source, the interpolated values unformatted.
\<close>

datatype level = DEBUG | INFO | WARNING | ERROR

datatype piece = S string | I int | F real | L "string list"

datatype log_record = Log level "piece list"

record 'w process =
  world :: 'w
  logs :: "log_record list"

subsection \<open>Strings\<close>

text \<open>
  \<^verbatim>\<open>keyword in text\<close> on two strings: \<open>keyword\<close> occurs in \<open>text\<close> as a contiguous
  run of characters. The empty string occurs in every string.
\<close>

fun str_contains :: "string \<Rightarrow> string \<Rightarrow> bool" where
  "str_contains k [] = (k = [])"
| "str_contains k (c # cs) = (prefix k (c # cs) \<or> str_contains k cs)"

text \<open>\<^verbatim>\<open>str.lower()\<close>, on ASCII text: the letters A to Z are mapped to a to z.\<close>

definition lower_char :: "char \<Rightarrow> char" where
  "lower_char c =
     (case map_of (zip ''ABCDEFGHIJKLMNOPQRSTUVWXYZ'' ''abcdefghijklmnopqrstuvwxyz'') c of
        None \<Rightarrow> c
      | Some d \<Rightarrow> d)"

definition lower :: "string \<Rightarrow> string" where
  "lower s = map lower_char s"

subsection \<open>TriggerManager\<close>

text \<open>
  The context is a \<^verbatim>\<open>Dict\<close> from strings to Python values; the \<^verbatim>\<open>if\<close> on
  \<^verbatim>\<open>context.get("is_mention", False)\<close> tests the truth value of what it finds.
\<close>

datatype pyval = PyNone | PyBool bool | PyInt int | PyStr string

fun truthy :: "pyval \<Rightarrow> bool" where
  "truthy PyNone = False"
| "truthy (PyBool b) = b"
| "truthy (PyInt i) = (i \<noteq> 0)"
| "truthy (PyStr s) = (s \<noteq> [])"

type_synonym py_dict = "string \<rightharpoonup> pyval"

definition dict_get :: "py_dict \<Rightarrow> string \<Rightarrow> pyval \<Rightarrow> pyval" where
  "dict_get d k dflt = (case d k of None \<Rightarrow> dflt | Some v \<Rightarrow> v)"

type_synonym 'w handler = "string \<Rightarrow> py_dict \<Rightarrow> 'w \<Rightarrow> (unit, 'w) outcome"

text \<open>
  A trigger is a dict whose \<^verbatim>\<open>"type"\<close> is \<^verbatim>\<open>"keyword"\<close> (with
  \<^verbatim>\<open>"keywords"\<close>, \<^verbatim>\<open>"case_sensitive"\<close>, \<^verbatim>\<open>"callback"\<close>) or \<^verbatim>\<open>"mention"\<close>
  (with \<^verbatim>\<open>"callback"\<close>).
\<close>

datatype 'w trigger =
    KeywordTrigger "string list" bool "'w handler"
  | MentionTrigger "'w handler"

text \<open>
  Of \<^verbatim>\<open>self\<close> only \<^verbatim>\<open>self.triggers\<close> is read or written by the methods
  (\<^verbatim>\<open>agent\<close> and \<^verbatim>\<open>memory\<close> are stored and never used). The methods that append
  a trigger return the new object and the new process state; \<^verbatim>\<open>check_triggers\<close> never
  assigns to \<^verbatim>\<open>self\<close> and threads the process state alone.
\<close>

record 'w trigger_manager =
  triggers :: "'w trigger list"

definition trigger_manager_init :: "'w process \<Rightarrow> 'w trigger_manager \<times> 'w process" where
  "trigger_manager_init p =
     (\<lparr>triggers = []\<rparr>, p\<lparr>logs := logs p @ [Log INFO [S ''TriggerManager initialized'']]\<rparr>)"

definition add_keyword_trigger ::
  "string list \<Rightarrow> 'w handler \<Rightarrow> bool \<Rightarrow> 'w trigger_manager \<times> 'w process
     \<Rightarrow> 'w trigger_manager \<times> 'w process" where
  "add_keyword_trigger kws cb cs = (\<lambda>(tm, p).
     let trigger = KeywordTrigger (if cs then kws else map lower kws) cs cb
     in (tm\<lparr>triggers := triggers tm @ [trigger]\<rparr>,
         p\<lparr>logs := logs p @ [Log INFO [S ''Added keyword trigger: '', L kws]]\<rparr>))"

definition add_mention_trigger ::
  "'w handler \<Rightarrow> 'w trigger_manager \<times> 'w process \<Rightarrow> 'w trigger_manager \<times> 'w process" where
  "add_mention_trigger cb = (\<lambda>(tm, p).
     let trigger = MentionTrigger cb
     in (tm\<lparr>triggers := triggers tm @ [trigger]\<rparr>,
         p\<lparr>logs := logs p @ [Log INFO [S ''Added mention trigger'']]\<rparr>))"

text \<open>
  The inner loop of \<^verbatim>\<open>check_triggers\<close>, over the keywords of one keyword trigger.
  Nothing catches what the callback raises: the exception leaves both loops.
\<close>

fun keyword_loop ::
  "'w handler \<Rightarrow> string \<Rightarrow> py_dict \<Rightarrow> string \<Rightarrow> string list \<Rightarrow> bool \<Rightarrow> 'w process
     \<Rightarrow> (bool, 'w process) outcome" where
  "keyword_loop cb message context text [] triggered p = Return triggered p"
| "keyword_loop cb message context text (keyword # rest) triggered p =
     (if str_contains keyword text then
        (let p1 = p\<lparr>logs := logs p @ [Log INFO [S ''Keyword trigger activated: '', S keyword]]\<rparr>
         in case cb message context (world p1) of
              Raise e w \<Rightarrow> Raise e (p1\<lparr>world := w\<rparr>)
            | Return u w \<Rightarrow> keyword_loop cb message context text rest True (p1\<lparr>world := w\<rparr>))
      else keyword_loop cb message context text rest triggered p)"

text \<open>The outer loop, over \<^verbatim>\<open>self.triggers\<close>.\<close>

fun trigger_loop ::
  "string \<Rightarrow> py_dict \<Rightarrow> 'w trigger list \<Rightarrow> bool \<Rightarrow> 'w process
     \<Rightarrow> (bool, 'w process) outcome" where
  "trigger_loop message context [] triggered p = Return triggered p"
| "trigger_loop message context (KeywordTrigger kws cs cb # rest) triggered p =
     (let text = (if cs then message else lower message)
      in case keyword_loop cb message context text kws triggered p of
           Raise e p1 \<Rightarrow> Raise e p1
         | Return triggered1 p1 \<Rightarrow> trigger_loop message context rest triggered1 p1)"
| "trigger_loop message context (MentionTrigger cb # rest) triggered p =
     (if truthy (dict_get context ''is_mention'' (PyBool False)) then
        (let p1 = p\<lparr>logs := logs p @ [Log INFO [S ''Mention trigger activated'']]\<rparr>
         in case cb message context (world p1) of
              Raise e w \<Rightarrow> Raise e (p1\<lparr>world := w\<rparr>)
            | Return u w \<Rightarrow> trigger_loop message context rest True (p1\<lparr>world := w\<rparr>))
      else trigger_loop message context rest triggered p)"

definition check_triggers ::
  "string \<Rightarrow> py_dict \<Rightarrow> 'w trigger_manager \<Rightarrow> 'w process \<Rightarrow> (bool, 'w process) outcome" where
  "check_triggers message context tm p = trigger_loop message context (triggers tm) False p"

subsection \<open>Orchestrator\<close>

text \<open>
  A \<^verbatim>\<open>Task\<close> object. Its callback takes no argument; with the outside world made
  explicit it maps the world to an outcome. \<^verbatim>\<open>datetime\<close> values are counted in
  microseconds.
\<close>

type_synonym datetime = int

record 'w task =
  name :: string
  callback :: "'w \<Rightarrow> (unit, 'w) outcome"
  interval_seconds :: int
  enabled :: bool
  last_run :: "datetime option"
  run_count :: int

text \<open>
  The state the methods of an \<^verbatim>\<open>Orchestrator\<close> act on: the fields of \<^verbatim>\<open>self\<close>
  that they use (\<^verbatim>\<open>variance_factor\<close>, \<^verbatim>\<open>tasks\<close>, \<^verbatim>\<open>running\<close>), the world and the
  logger, and two parts of the Python runtime. \<open>store\<close> holds every \<^verbatim>\<open>Task\<close> object
  created so far; a reference is the position of its object in the store, and
  \<^verbatim>\<open>self.tasks\<close> is a list of references. References come from allocation only, so a
  reference that is held is in range. \<open>loops\<close> lists the task loops that
  \<^verbatim>\<open>start()\<close> has created, each by the \<^verbatim>\<open>Task\<close> object its coroutine was called
  with.
\<close>

type_synonym ref = nat

record 'w orchestrator = "'w process" +
  variance_factor :: real
  tasks :: "ref list"
  running :: bool
  store :: "'w task list"
  loops :: "ref list"

definition task_at :: "'w orchestrator \<Rightarrow> ref \<Rightarrow> 'w task" where
  "task_at st r = store st ! r"

definition set_task :: "ref \<Rightarrow> 'w task \<Rightarrow> 'w orchestrator \<Rightarrow> 'w orchestrator" where
  "set_task r t st = st\<lparr>store := (store st)[r := t]\<rparr>"

definition refs_in_range :: "'w orchestrator \<Rightarrow> bool" where
  "refs_in_range st = list_all (\<lambda>r. r < length (store st)) (tasks st @ loops st)"

definition orchestrator_init :: "real \<Rightarrow> 'w process \<Rightarrow> 'w orchestrator" where
  "orchestrator_init vf p =
     \<lparr>world = world p, logs = logs p @ [Log INFO [S ''Orchestrator initialized'']],
      variance_factor = vf, tasks = [], running = False, store = [], loops = []\<rparr>"

text \<open>
  \<^verbatim>\<open>add_task\<close> builds the \<^verbatim>\<open>Task\<close>, appends it and logs. It has no check and no
  \<^verbatim>\<open>raise\<close>: the model is a total function on states.
\<close>

definition add_task ::
  "string \<Rightarrow> ('w \<Rightarrow> (unit, 'w) outcome) \<Rightarrow> int \<Rightarrow> bool \<Rightarrow> 'w orchestrator \<Rightarrow> 'w orchestrator" where
  "add_task nm cb interval en st =
     (let task = \<lparr>name = nm, callback = cb, interval_seconds = interval, enabled = en,
                  last_run = None, run_count = 0\<rparr>;
          r = length (store st)
      in st\<lparr>store := store st @ [task],
            tasks := tasks st @ [r],
            logs := logs st @ [Log INFO [S ''Added task: '', S nm, S '' (interval: '', I interval, S ''s)'']]\<rparr>)"

definition remove_task :: "string \<Rightarrow> 'w orchestrator \<Rightarrow> 'w orchestrator" where
  "remove_task nm st =
     st\<lparr>tasks := filter (\<lambda>t. name (task_at st t) \<noteq> nm) (tasks st),
        logs := logs st @ [Log INFO [S ''Removed task: '', S nm]]\<rparr>"

fun enable_loop :: "string \<Rightarrow> ref list \<Rightarrow> 'w orchestrator \<Rightarrow> 'w orchestrator" where
  "enable_loop nm [] st = st"
| "enable_loop nm (t # ts) st =
     (if name (task_at st t) = nm then
        enable_loop nm ts
          ((set_task t ((task_at st t)\<lparr>enabled := True\<rparr>) st)
             \<lparr>logs := logs st @ [Log INFO [S ''Enabled task: '', S nm]]\<rparr>)
      else enable_loop nm ts st)"

definition enable_task :: "string \<Rightarrow> 'w orchestrator \<Rightarrow> 'w orchestrator" where
  "enable_task nm st = enable_loop nm (tasks st) st"

fun disable_loop :: "string \<Rightarrow> ref list \<Rightarrow> 'w orchestrator \<Rightarrow> 'w orchestrator" where
  "disable_loop nm [] st = st"
| "disable_loop nm (t # ts) st =
     (if name (task_at st t) = nm then
        disable_loop nm ts
          ((set_task t ((task_at st t)\<lparr>enabled := False\<rparr>) st)
             \<lparr>logs := logs st @ [Log INFO [S ''Disabled task: '', S nm]]\<rparr>)
      else disable_loop nm ts st)"

definition disable_task :: "string \<Rightarrow> 'w orchestrator \<Rightarrow> 'w orchestrator" where
  "disable_task nm st = disable_loop nm (tasks st) st"

text \<open>
  \<^verbatim>\<open>random.uniform(a, b)\<close> is \<^verbatim>\<open>a + (b - a) * self.random()\<close>; \<open>u\<close> is the draw of
  \<^verbatim>\<open>random()\<close>, a number from 0 up to but not including 1.
\<close>

definition uniform :: "real \<Rightarrow> real \<Rightarrow> real \<Rightarrow> real" where
  "uniform a b u = a + (b - a) * u"

definition calculate_next_run :: "real \<Rightarrow> 'w task \<Rightarrow> 'w orchestrator \<Rightarrow> real" where
  "calculate_next_run u task st =
     (let base_interval = real_of_int (interval_seconds task);
          variance = base_interval * variance_factor st;
          adjustment = uniform (- variance) variance u;
          next_interval = base_interval + adjustment
      in max 1 next_interval)"

text \<open>
  \<^verbatim>\<open>_run_task\<close>. The two assignments to the task stand inside the \<^verbatim>\<open>try\<close>, after the
  call of the callback; the handler catches \<^verbatim>\<open>Exception\<close> and only logs. \<open>now\<close> is
  what \<^verbatim>\<open>datetime.now()\<close> returns.
\<close>

definition run_task :: "datetime \<Rightarrow> ref \<Rightarrow> 'w orchestrator \<Rightarrow> (unit, 'w orchestrator) outcome" where
  "run_task now t st =
     (let st1 = st\<lparr>logs := logs st @ [Log INFO [S ''Executing task: '', S (name (task_at st t))]]\<rparr>
      in case callback (task_at st1 t) (world st1) of
           Return x w \<Rightarrow>
             (let st2 = st1\<lparr>world := w\<rparr>;
                  st3 = set_task t ((task_at st2 t)\<lparr>last_run := Some now\<rparr>) st2;
                  st4 = set_task t ((task_at st3 t)\<lparr>run_count := run_count (task_at st3 t) + 1\<rparr>) st3
              in Return ()
                   (st4\<lparr>logs := logs st4 @
                       [Log INFO [S ''Task '', S (name (task_at st4 t)), S '' completed (runs: '',
                                  I (run_count (task_at st4 t)), S '')'']]\<rparr>))
         | Raise (Exception m) w \<Rightarrow>
             Return ()
               (st1\<lparr>world := w,
                    logs := logs st1 @
                      [Log ERROR [S ''Task '', S (name (task_at st1 t)), S '' failed: '', S m]]\<rparr>)
         | Raise (BaseException m) w \<Rightarrow> Raise (BaseException m) (st1\<lparr>world := w\<rparr>))"

text \<open>
  One pass of \<^verbatim>\<open>_task_loop\<close>: the test of \<^verbatim>\<open>self.running\<close>, the body, up to the
  \<^verbatim>\<open>await asyncio.sleep(next_run)\<close>. The pass ends asleep for \<open>next_run\<close> seconds, or
  the loop has ended, or an exception that \<^verbatim>\<open>_run_task\<close> did not catch leaves it.
\<close>

datatype 'w pass = Sleep real "'w orchestrator" | Exit "'w orchestrator" | Propagate exn "'w orchestrator"

definition task_loop_pass :: "datetime \<Rightarrow> real \<Rightarrow> ref \<Rightarrow> 'w orchestrator \<Rightarrow> 'w pass" where
  "task_loop_pass now u t st =
     (if running st then
        (case (if enabled (task_at st t) then run_task now t st else Return () st) of
           Raise e st1 \<Rightarrow> Propagate e st1
         | Return x st1 \<Rightarrow>
             (let next_run = calculate_next_run u (task_at st1 t) st1
              in Sleep next_run
                   (st1\<lparr>logs := logs st1 @
                       [Log DEBUG [S ''Task '', S (name (task_at st1 t)), S '' next run in '',
                                   F next_run, S ''s'']]\<rparr>)))
      else Exit st)"

text \<open>
  \<^verbatim>\<open>_task_loop\<close>. The loop has no bound, so the model takes one tick for each pass: the
  time and the random draw of the pass, and what the rest of the program does to the state
  while the loop sleeps (other loops, calls of \<^verbatim>\<open>enable_task\<close>, \<^verbatim>\<open>stop\<close> and so
  on). When the ticks are used up the loop is still alive, suspended in its sleep.
\<close>

type_synonym 'w tick = "datetime \<times> real \<times> ('w orchestrator \<Rightarrow> 'w orchestrator)"

datatype 'w loop_result =
    Suspended "'w orchestrator"
  | Exited "'w orchestrator"
  | Propagated exn "'w orchestrator"

fun task_loop :: "'w tick list \<Rightarrow> ref \<Rightarrow> 'w orchestrator \<Rightarrow> 'w loop_result" where
  "task_loop [] t st = Suspended st"
| "task_loop ((now, u, others) # rest) t st =
     (case task_loop_pass now u t st of
        Sleep next_run st1 \<Rightarrow> task_loop rest t (others st1)
      | Exit st1 \<Rightarrow> Exited st1
      | Propagate e st1 \<Rightarrow> Propagated e st1)"

text \<open>
  \<^verbatim>\<open>start\<close>, up to the creation of the task loops: one loop for each object of
  \<^verbatim>\<open>self.tasks\<close> at that moment. The loops then run as \<open>task_loop\<close> describes.
\<close>

definition start :: "'w orchestrator \<Rightarrow> 'w orchestrator" where
  "start st =
     (if running st then
        st\<lparr>logs := logs st @ [Log WARNING [S ''Orchestrator already running'']]\<rparr>
      else
        st\<lparr>running := True,
           logs := logs st @ [Log INFO [S ''Starting orchestrator...'']],
           loops := loops st @ tasks st\<rparr>)"

definition stop :: "'w orchestrator \<Rightarrow> 'w orchestrator" where
  "stop st = st\<lparr>logs := logs st @ [Log INFO [S ''Stopping orchestrator...'']], running := False\<rparr>"

record task_status =
  status_name :: string
  status_enabled :: bool
  status_interval :: int
  status_last_run :: "datetime option"
  status_run_count :: int

definition get_status :: "'w orchestrator \<Rightarrow> bool \<times> task_status list" where
  "get_status st =
     (running st,
      map (\<lambda>t. \<lparr>status_name = name (task_at st t),
                 status_enabled = enabled (task_at st t),
                 status_interval = interval_seconds (task_at st t),
                 status_last_run = last_run (task_at st t),
                 status_run_count = run_count (task_at st t)\<rparr>)
          (tasks st))"

subsection \<open>The state a pass or a loop ends in\<close>

fun pass_state :: "'w pass \<Rightarrow> 'w orchestrator" where
  "pass_state (Sleep d st) = st"
| "pass_state (Exit st) = st"
| "pass_state (Propagate e st) = st"

fun loop_state :: "'w loop_result \<Rightarrow> 'w orchestrator" where
  "loop_state (Suspended st) = st"
| "loop_state (Exited st) = st"
| "loop_state (Propagated e st) = st"

subsection \<open>What a rule matches, and repeated calls\<close>

text \<open>
  The condition under which a rule fires, written as a predicate of its own: a keyword
  rule fires when one of its stored keywords occurs in the message text (lowercased
  unless the rule is case-sensitive) as a substring; a mention rule fires when the
  context gives \<^verbatim>\<open>is_mention\<close> a true value.
\<close>

fun rule_fires :: "'w trigger \<Rightarrow> string \<Rightarrow> py_dict \<Rightarrow> bool" where
  "rule_fires (KeywordTrigger kws cs cb) message context =
     (\<exists>k \<in> set kws. sublist k (if cs then message else lower message))"
| "rule_fires (MentionTrigger cb) message context =
     truthy (dict_get context ''is_mention'' (PyBool False))"

fun handler_of :: "'w trigger \<Rightarrow> 'w handler" where
  "handler_of (KeywordTrigger kws cs cb) = cb"
| "handler_of (MentionTrigger cb) = cb"

text \<open>Calling \<open>f\<close> on the world \<open>n\<close> times in a row, stopping when a call raises.\<close>

fun invoke_times :: "nat \<Rightarrow> ('w \<Rightarrow> (unit, 'w) outcome) \<Rightarrow> 'w \<Rightarrow> (unit, 'w) outcome" where
  "invoke_times 0 f w = Return () w"
| "invoke_times (Suc n) f w =
     (case f w of Raise e w1 \<Rightarrow> Raise e w1 | Return x w1 \<Rightarrow> invoke_times n f w1)"

subsection \<open>Callbacks and states for the examples\<close>

text \<open>
  In the examples the world is the list of the callbacks that have run, each adding its
  tag; a failing callback adds its tag and raises \<^verbatim>\<open>Exception("boom")\<close>.
\<close>

definition empty_process :: "string list process" where
  "empty_process = \<lparr>world = [], logs = []\<rparr>"

definition recording_action :: "string \<Rightarrow> string list \<Rightarrow> (unit, string list) outcome" where
  "recording_action tag = (\<lambda>w. Return () (w @ [tag]))"

definition failing_action :: "string \<Rightarrow> string list \<Rightarrow> (unit, string list) outcome" where
  "failing_action tag = (\<lambda>w. Raise (Exception ''boom'') (w @ [tag]))"

definition recording_handler :: "string \<Rightarrow> string list handler" where
  "recording_handler tag = (\<lambda>message context w. Return () (w @ [tag]))"

definition failing_handler :: "string \<Rightarrow> string list handler" where
  "failing_handler tag = (\<lambda>message context w. Raise (Exception ''boom'') (w @ [tag]))"

definition fresh_orchestrator :: "string list orchestrator" where
  "fresh_orchestrator = orchestrator_init (1 / 5) empty_process"

definition gm_manager :: "string list trigger_manager \<times> string list process" where
  "gm_manager =
     add_keyword_trigger [''gm'', ''wagmi''] (recording_handler ''keyword'') False
       (trigger_manager_init empty_process)"

text \<open>
  An orchestrator with one enabled task \<open>post\<close> of interval 10, started: with an action
  that fails, with one that records, and the latter with the task disabled. Then two
  runs of ticks: three passes during which nothing else happens, and three passes with a
  call of \<^verbatim>\<open>remove_task("post")\<close> during the first sleep.
\<close>

definition failing_orchestrator :: "string list orchestrator" where
  "failing_orchestrator = start (add_task ''post'' (failing_action ''post'') 10 True fresh_orchestrator)"

definition posting_orchestrator :: "string list orchestrator" where
  "posting_orchestrator = start (add_task ''post'' (recording_action ''post'') 10 True fresh_orchestrator)"

definition disabled_orchestrator :: "string list orchestrator" where
  "disabled_orchestrator = disable_task ''post'' posting_orchestrator"

definition quiet_ticks :: "string list tick list" where
  "quiet_ticks = [(1000, 1 / 4, \<lambda>s. s), (2000, 3 / 4, \<lambda>s. s), (3000, 1 / 2, \<lambda>s. s)]"

definition removal_ticks :: "string list tick list" where
  "removal_ticks = [(1000, 1 / 2, remove_task ''post''), (2000, 1 / 2, \<lambda>s. s), (3000, 1 / 2, \<lambda>s. s)]"

section \<open>Properties\<close>

subsection \<open>The jittered interval\<close>

lemma calculate_next_run_ge_1: "1 \<le> calculate_next_run u task st"
  by (simp add: calculate_next_run_def Let_def)

lemma uniform_between:
  assumes "0 \<le> u" "u \<le> 1" "0 \<le> v"
  shows "- v \<le> uniform (- v) v u \<and> uniform (- v) v u \<le> v"
proof -
  have "0 \<le> 2 * v * u" using assms by simp
  moreover have "2 * v * u \<le> 2 * v" using assms by (simp add: mult_left_le)
  ultimately show ?thesis by (simp add: uniform_def algebra_simps)
qed

lemma calculate_next_run_nonpositive:
  assumes "interval_seconds task \<le> 0" and "0 \<le> variance_factor st" and "variance_factor st \<le> 1"
    and "0 \<le> u" and "u \<le> 1"
  shows "calculate_next_run u task st = 1"
proof -
  let ?b = "real_of_int (interval_seconds task)"
  let ?vf = "variance_factor st"
  have b: "?b \<le> 0" using assms(1) by simp
  have "?vf * (- 1) \<le> ?vf * (2 * u - 1)"
    using assms(2,4) by (intro mult_left_mono) simp_all
  with assms(3) have k: "0 \<le> 1 + ?vf * (2 * u - 1)" by simp
  have "?b * (1 + ?vf * (2 * u - 1)) \<le> 0"
    using b k by (rule mult_nonpos_nonneg)
  moreover have "?b + uniform (- (?b * ?vf)) (?b * ?vf) u = ?b * (1 + ?vf * (2 * u - 1))"
    by (simp add: uniform_def algebra_simps)
  ultimately show ?thesis
    by (simp add: calculate_next_run_def Let_def)
qed

text \<open>
  C5. The next sleep of a task is \<open>base_interval + uniform(-variance, variance)\<close> with
  \<open>variance = base_interval * variance_factor\<close>, and at least 1 second. For every draw
  the adjustment lies between \<open>-variance\<close> and \<open>variance\<close> (for a variance that is not
  negative); with a base interval of 100 and a variance factor of 0.2 the result lies in
  [80, 120]; and for every base interval, variance factor and draw the result is at
  least 1. Floats are read as reals, 0.2 as one fifth.
\<close>

theorem calculate_next_run_bounds:
  "calculate_next_run u task st =
     max 1 (real_of_int (interval_seconds task) +
            uniform (- (real_of_int (interval_seconds task) * variance_factor st))
                    (real_of_int (interval_seconds task) * variance_factor st) u) \<and>
   (0 \<le> u \<and> u \<le> 1 \<and> 0 \<le> v \<longrightarrow> - v \<le> uniform (- v) v u \<and> uniform (- v) v u \<le> v) \<and>
   (0 \<le> u \<and> u \<le> 1 \<and> interval_seconds task = 100 \<and> variance_factor st = 1 / 5 \<longrightarrow>
      80 \<le> calculate_next_run u task st \<and> calculate_next_run u task st \<le> 120) \<and>
   1 \<le> calculate_next_run u task st"
proof (intro conjI impI)
  show "calculate_next_run u task st =
     max 1 (real_of_int (interval_seconds task) +
            uniform (- (real_of_int (interval_seconds task) * variance_factor st))
                    (real_of_int (interval_seconds task) * variance_factor st) u)"
    by (simp add: calculate_next_run_def Let_def)
next
  assume "0 \<le> u \<and> u \<le> 1 \<and> 0 \<le> v"
  then show "- v \<le> uniform (- v) v u" "uniform (- v) v u \<le> v"
    using uniform_between[of u v] by simp_all
next
  assume a: "0 \<le> u \<and> u \<le> 1 \<and> interval_seconds task = 100 \<and> variance_factor st = 1 / 5"
  then have b: "- 20 \<le> uniform (- 20) 20 u \<and> uniform (- 20) 20 u \<le> 20"
    using uniform_between[of u 20] by simp
  from a have vf: "variance_factor st = 1 / 5" and i: "interval_seconds task = 100"
    by blast+
  have c: "calculate_next_run u task st = max 1 (100 + uniform (- 20) 20 u)"
    unfolding calculate_next_run_def Let_def vf i by simp
  from b show "80 \<le> calculate_next_run u task st" unfolding c by simp
  from b show "calculate_next_run u task st \<le> 120" unfolding c by simp
next
  show "1 \<le> calculate_next_run u task st" by (rule calculate_next_run_ge_1)
qed

theorem calculate_next_run_bounds_witness:
  "((0::real) \<le> 1 / 4 \<and> (1::real) / 4 \<le> 1 \<and> (0::real) \<le> 20) \<and>
   interval_seconds (task_at (add_task ''post'' (recording_action ''post'') 100 True fresh_orchestrator) 0) = 100 \<and>
   variance_factor (add_task ''post'' (recording_action ''post'') 100 True fresh_orchestrator) = 1 / 5 \<and>
   uniform (- 20) 20 (1 / 4) = - 10 \<and>
   80 \<le> calculate_next_run (1 / 4)
           (task_at (add_task ''post'' (recording_action ''post'') 100 True fresh_orchestrator) 0)
           (add_task ''post'' (recording_action ''post'') 100 True fresh_orchestrator) \<and>
   calculate_next_run (1 / 4)
           (task_at (add_task ''post'' (recording_action ''post'') 100 True fresh_orchestrator) 0)
           (add_task ''post'' (recording_action ''post'') 100 True fresh_orchestrator) \<le> 120"
proof -
  let ?st = "add_task ''post'' (recording_action ''post'') 100 True fresh_orchestrator"
  have i: "interval_seconds (task_at ?st 0) = 100"
    by (simp add: add_task_def fresh_orchestrator_def orchestrator_init_def task_at_def Let_def)
  have vf: "variance_factor ?st = 1 / 5"
    by (simp add: add_task_def fresh_orchestrator_def orchestrator_init_def Let_def)
  have u: "uniform (- 20) 20 (1 / 4) = - 10"
    by (simp add: uniform_def)
  have h: "(0::real) \<le> 1 / 4 \<and> (1::real) / 4 \<le> 1 \<and> interval_seconds (task_at ?st 0) = 100 \<and>
           variance_factor ?st = 1 / 5"
    using i vf by simp
  from calculate_next_run_bounds[of "1 / 4" "task_at ?st 0" ?st 20] h
  have "80 \<le> calculate_next_run (1 / 4) (task_at ?st 0) ?st \<and>
        calculate_next_run (1 / 4) (task_at ?st 0) ?st \<le> 120"
    by blast
  with i vf u show ?thesis by simp
qed

subsection \<open>The loops of check_triggers\<close>

lemma str_contains_sublist: "str_contains k t \<longleftrightarrow> sublist k t"
  by (induction t) (simp_all add: sublist_Cons_right)

lemma keyword_loop_returned:
  "keyword_loop cb m c text kws tr tm = Return b tm1 \<Longrightarrow>
     b = (tr \<or> (\<exists>k \<in> set kws. str_contains k text))"
  by (induction kws arbitrary: tr tm) (auto simp: Let_def split: if_splits outcome.splits)

lemma trigger_loop_returned:
  "trigger_loop m c ts tr tm = Return b tm1 \<Longrightarrow>
     b = (tr \<or> (\<exists>t \<in> set ts. rule_fires t m c))"
proof (induction m c ts tr tm rule: trigger_loop.induct)
  case (1 message ctx triggered tm)
  then show ?case by simp
next
  case (2 message ctx kws cs cb rest triggered tm)
  let ?text = "if cs then message else lower message"
  from "2.prems" obtain tr1 tm2 where
    k: "keyword_loop cb message ctx ?text kws triggered tm = Return tr1 tm2" and
    r: "trigger_loop message ctx rest tr1 tm2 = Return b tm1"
    by (auto simp: Let_def split: outcome.splits)
  from keyword_loop_returned[OF k]
  have "tr1 = (triggered \<or> (\<exists>k \<in> set kws. sublist k ?text))"
    by (simp add: str_contains_sublist)
  moreover from "2.IH"[OF refl k r]
  have "b = (tr1 \<or> (\<exists>t \<in> set rest. rule_fires t message ctx))" .
  ultimately show ?case by auto
next
  case (3 message ctx cb rest triggered tm)
  then show ?case
    by (auto simp: Let_def split: if_splits outcome.splits)
qed

lemma keyword_loop_no_raise:
  "\<forall>w. raised (cb m c w) = None \<Longrightarrow> \<exists>b tm1. keyword_loop cb m c text kws tr tm = Return b tm1"
proof (induction kws arbitrary: tr tm)
  case Nil
  then show ?case by simp
next
  case (Cons k kws)
  show ?case
  proof (cases "str_contains k text")
    case True
    let ?tm1 = "tm\<lparr>logs := logs tm @ [Log INFO [S ''Keyword trigger activated: '', S k]]\<rparr>"
    from Cons.prems obtain u w where "cb m c (world ?tm1) = Return u w"
      by (metis outcome.exhaust raised.simps(2) option.distinct(1))
    with True Cons.IH[OF Cons.prems] show ?thesis by (simp add: Let_def)
  next
    case False
    with Cons.IH[OF Cons.prems] show ?thesis by simp
  qed
qed

lemma trigger_loop_no_raise:
  "\<forall>t \<in> set ts. \<forall>w. raised (handler_of t m c w) = None \<Longrightarrow>
     \<exists>b tm1. trigger_loop m c ts tr tm = Return b tm1"
proof (induction m c ts tr tm rule: trigger_loop.induct)
  case (1 message ctx triggered tm)
  then show ?case by simp
next
  case (2 message ctx kws cs cb rest triggered tm)
  from 2(2) have cb: "\<forall>w. raised (cb message ctx w) = None" by simp
  obtain b tm1 where k: "keyword_loop cb message ctx (if cs then message else lower message) kws triggered tm = Return b tm1"
    using keyword_loop_no_raise[of cb message ctx, OF cb] by blast
  from 2(2) have rest: "\<forall>t \<in> set rest. \<forall>w. raised (handler_of t message ctx w) = None" by simp
  from 2(1)[OF refl k rest] k show ?case by (simp add: Let_def)
next
  case (3 message ctx cb rest triggered tm)
  from 3(3) have cb: "\<forall>w. raised (cb message ctx w) = None" by simp
  from 3(3) have rest: "\<forall>t \<in> set rest. \<forall>w. raised (handler_of t message ctx w) = None" by simp
  show ?case
  proof (cases "truthy (dict_get ctx ''is_mention'' (PyBool False))")
    case True
    let ?tm1 = "tm\<lparr>logs := logs tm @ [Log INFO [S ''Mention trigger activated'']]\<rparr>"
    from cb obtain u w where r: "cb message ctx (world ?tm1) = Return u w"
      by (metis outcome.exhaust raised.simps(2) option.distinct(1))
    from 3(1)[OF True refl r rest] True r show ?thesis by (simp add: Let_def)
  next
    case False
    from 3(2)[OF False rest] False show ?thesis by simp
  qed
qed

lemma trigger_loop_append:
  "trigger_loop m c (ts1 @ ts2) tr tm =
     (case trigger_loop m c ts1 tr tm of
        Raise e tm1 \<Rightarrow> Raise e tm1
      | Return tr1 tm1 \<Rightarrow> trigger_loop m c ts2 tr1 tm1)"
  by (induction m c ts1 tr tm rule: trigger_loop.induct)
     (simp_all add: Let_def split: outcome.splits)

lemma keyword_loop_invocations:
  "raised (keyword_loop cb m c text kws tr p) =
     raised (invoke_times (length (filter (\<lambda>k. str_contains k text) kws)) (cb m c) (world p)) \<and>
   world (final (keyword_loop cb m c text kws tr p)) =
     final (invoke_times (length (filter (\<lambda>k. str_contains k text) kws)) (cb m c) (world p))"
  by (induction kws arbitrary: tr p) (simp_all add: Let_def split: outcome.splits)

lemma keyword_loop_logs:
  "keyword_loop cb m c text kws tr p = Return b p1 \<Longrightarrow>
     logs p1 = logs p @ map (\<lambda>k. Log INFO [S ''Keyword trigger activated: '', S k])
                            (filter (\<lambda>k. str_contains k text) kws)"
  by (induction kws arbitrary: tr p) (auto simp: Let_def split: outcome.splits if_splits)

lemma keyword_loop_first_raises:
  "filter (\<lambda>k. str_contains k text) kws = k # ks \<Longrightarrow> cb m c (world p) = Raise e w \<Longrightarrow>
     keyword_loop cb m c text kws tr p =
       Raise e \<lparr>world = w, logs = logs p @ [Log INFO [S ''Keyword trigger activated: '', S k]]\<rparr>"
  by (induction kws arbitrary: tr p) (auto simp: Let_def split: if_splits)

lemma gm_triggers:
  "triggers (fst gm_manager) = [KeywordTrigger [''gm'', ''wagmi''] False (recording_handler ''keyword'')]"
  by (simp add: gm_manager_def add_keyword_trigger_def trigger_manager_init_def Let_def
      lower_def lower_char_def)

lemma lower_gm_fren: "lower ''GM fren'' = ''gm fren''"
  by (simp add: lower_def lower_char_def)

lemma lower_nothing: "lower ''nothing relevant'' = ''nothing relevant''"
  by (simp add: lower_def lower_char_def)

subsection \<open>A callback that raises inside check_triggers\<close>

text \<open>
  C2, as the claim states it, fails. Two keyword rules are registered for \<open>gm\<close>; the
  callback of the first raises. On the message \<open>gm\<close> the call of \<^verbatim>\<open>check_triggers\<close>
  ends with that exception: only the first callback has run, and the log holds the
  activation record and no record of the failure.
\<close>

theorem check_triggers_isolation_counterexample:
  "check_triggers ''gm'' Map.empty
     (fst (add_keyword_trigger [''gm''] (recording_handler ''second'') False
          (add_keyword_trigger [''gm''] (failing_handler ''first'') False
          (trigger_manager_init empty_process))))
     empty_process
   = Raise (Exception ''boom'')
       \<lparr>world = [''first''], logs = [Log INFO [S ''Keyword trigger activated: '', S ''gm'']]\<rparr>"
  by (simp add: check_triggers_def add_keyword_trigger_def trigger_manager_init_def
      empty_process_def recording_handler_def failing_handler_def lower_def lower_char_def Let_def)

text \<open>
  C2, amended. Let the rules registered before return normally. When the callback of
  the next rule raises - the callback of a mention rule under a context that marks a
  mention, or a call of the callback of a keyword rule for one of its keywords that
  occur in the text - \<^verbatim>\<open>check_triggers\<close> ends with that exception, in the state the
  raising call left: the exception is not caught, the log holds the activation record and
  no record of the failure, and whatever rules are registered after the raising one, none
  of them is evaluated and none of their callbacks is executed. The same holds when the
  rules registered before already end with an exception.
\<close>

theorem check_triggers_exception_propagates:
  "(check_triggers message context \<lparr>triggers = pre\<rparr> p = Return tr p1 \<and>
    truthy (dict_get context ''is_mention'' (PyBool False)) \<and>
    cb message context (world p1) = Raise e w \<longrightarrow>
      check_triggers message context \<lparr>triggers = pre @ MentionTrigger cb # post\<rparr> p =
        Raise e \<lparr>world = w, logs = logs p1 @ [Log INFO [S ''Mention trigger activated'']]\<rparr>) \<and>
   (check_triggers message context \<lparr>triggers = pre\<rparr> p = Return tr p1 \<and>
    filter (\<lambda>k. str_contains k (if cs then message else lower message)) kws = k # ks \<and>
    cb message context (world p1) = Raise e w \<longrightarrow>
      check_triggers message context \<lparr>triggers = pre @ KeywordTrigger kws cs cb # post\<rparr> p =
        Raise e \<lparr>world = w, logs = logs p1 @ [Log INFO [S ''Keyword trigger activated: '', S k]]\<rparr>) \<and>
   (check_triggers message context \<lparr>triggers = pre\<rparr> p = Return tr p1 \<and>
    raised (invoke_times
              (length (filter (\<lambda>k. str_contains k (if cs then message else lower message)) kws))
              (cb message context) (world p1)) = Some e \<longrightarrow>
      raised (check_triggers message context
                \<lparr>triggers = pre @ KeywordTrigger kws cs cb # post\<rparr> p) = Some e \<and>
      world (final (check_triggers message context
                \<lparr>triggers = pre @ KeywordTrigger kws cs cb # post\<rparr> p)) =
        final (invoke_times
                 (length (filter (\<lambda>k. str_contains k (if cs then message else lower message)) kws))
                 (cb message context) (world p1))) \<and>
   (check_triggers message context \<lparr>triggers = pre\<rparr> p = Raise e p1 \<longrightarrow>
      check_triggers message context \<lparr>triggers = pre @ post\<rparr> p = Raise e p1)"
proof (intro conjI impI)
  assume a: "check_triggers message context \<lparr>triggers = pre\<rparr> p = Return tr p1 \<and>
    truthy (dict_get context ''is_mention'' (PyBool False)) \<and>
    cb message context (world p1) = Raise e w"
  have "p1\<lparr>logs := logs p1 @ [Log INFO [S ''Mention trigger activated'']], world := w\<rparr> =
        \<lparr>world = w, logs = logs p1 @ [Log INFO [S ''Mention trigger activated'']]\<rparr>"
    by simp
  with a show "check_triggers message context \<lparr>triggers = pre @ MentionTrigger cb # post\<rparr> p =
        Raise e \<lparr>world = w, logs = logs p1 @ [Log INFO [S ''Mention trigger activated'']]\<rparr>"
    by (simp add: check_triggers_def trigger_loop_append Let_def)
next
  let ?text = "if cs then message else lower message"
  assume a: "check_triggers message context \<lparr>triggers = pre\<rparr> p = Return tr p1 \<and>
    filter (\<lambda>k. str_contains k ?text) kws = k # ks \<and>
    cb message context (world p1) = Raise e w"
  then have "keyword_loop cb message context ?text kws tr p1 =
       Raise e \<lparr>world = w, logs = logs p1 @ [Log INFO [S ''Keyword trigger activated: '', S k]]\<rparr>"
    using keyword_loop_first_raises[of ?text kws k ks cb message "context" p1 e w tr] by blast
  with a show "check_triggers message context \<lparr>triggers = pre @ KeywordTrigger kws cs cb # post\<rparr> p =
        Raise e \<lparr>world = w, logs = logs p1 @ [Log INFO [S ''Keyword trigger activated: '', S k]]\<rparr>"
    by (simp add: check_triggers_def trigger_loop_append Let_def)
next
  let ?text = "if cs then message else lower message"
  let ?n = "length (filter (\<lambda>k. str_contains k ?text) kws)"
  assume a: "check_triggers message context \<lparr>triggers = pre\<rparr> p = Return tr p1 \<and>
    raised (invoke_times ?n (cb message context) (world p1)) = Some e"
  note k = keyword_loop_invocations[of cb message "context" ?text kws tr p1]
  from a k obtain p2 where r: "keyword_loop cb message context ?text kws tr p1 = Raise e p2"
    by (cases "keyword_loop cb message context ?text kws tr p1") auto
  from a r have c: "check_triggers message context \<lparr>triggers = pre @ KeywordTrigger kws cs cb # post\<rparr> p =
      Raise e p2"
    by (simp add: check_triggers_def trigger_loop_append Let_def)
  show "raised (check_triggers message context
                \<lparr>triggers = pre @ KeywordTrigger kws cs cb # post\<rparr> p) = Some e"
    by (simp add: c)
  from k r show "world (final (check_triggers message context
                \<lparr>triggers = pre @ KeywordTrigger kws cs cb # post\<rparr> p)) =
        final (invoke_times ?n (cb message context) (world p1))"
    by (simp add: c)
next
  assume "check_triggers message context \<lparr>triggers = pre\<rparr> p = Raise e p1"
  then show "check_triggers message context \<lparr>triggers = pre @ post\<rparr> p = Raise e p1"
    by (simp add: check_triggers_def trigger_loop_append)
qed

theorem check_triggers_exception_propagates_witness:
  "check_triggers ''gm'' [''is_mention'' \<mapsto> PyBool True] \<lparr>triggers = []\<rparr> empty_process =
     Return False empty_process \<and>
   truthy (dict_get [''is_mention'' \<mapsto> PyBool True] ''is_mention'' (PyBool False)) \<and>
   failing_handler ''first'' ''gm'' [''is_mention'' \<mapsto> PyBool True] (world empty_process) =
     Raise (Exception ''boom'') [''first''] \<and>
   filter (\<lambda>k. str_contains k (lower ''gm'')) [''wagmi'', ''gm''] = [''gm''] \<and>
   check_triggers ''gm'' [''is_mention'' \<mapsto> PyBool True]
     \<lparr>triggers = [] @ MentionTrigger (failing_handler ''first'') #
                  [MentionTrigger (recording_handler ''second'')]\<rparr> empty_process =
     Raise (Exception ''boom'')
       \<lparr>world = [''first''], logs = [Log INFO [S ''Mention trigger activated'']]\<rparr> \<and>
   check_triggers ''gm'' [''is_mention'' \<mapsto> PyBool True]
     \<lparr>triggers = [] @ KeywordTrigger [''wagmi'', ''gm''] False (failing_handler ''first'') #
                  [MentionTrigger (recording_handler ''second'')]\<rparr> empty_process =
     Raise (Exception ''boom'')
       \<lparr>world = [''first''], logs = [Log INFO [S ''Keyword trigger activated: '', S ''gm'']]\<rparr>"
proof -
  let ?c = "[''is_mention'' \<mapsto> PyBool True]"
  have h1: "check_triggers ''gm'' ?c \<lparr>triggers = []\<rparr> empty_process = Return False empty_process"
    by (simp add: check_triggers_def)
  have h2: "truthy (dict_get ?c ''is_mention'' (PyBool False))"
    by (simp add: dict_get_def)
  have h3: "failing_handler ''first'' ''gm'' ?c (world empty_process) = Raise (Exception ''boom'') [''first'']"
    by (simp add: failing_handler_def empty_process_def)
  have h4: "filter (\<lambda>k. str_contains k (if False then ''gm'' else lower ''gm'')) [''wagmi'', ''gm''] = ''gm'' # []"
    by (simp add: lower_def lower_char_def)
  have l: "logs empty_process = []" by (simp add: empty_process_def)
  note th = check_triggers_exception_propagates[of "''gm''" ?c "[]" empty_process False empty_process
      "failing_handler ''first''" "Exception ''boom''" "[''first'']"
      "[MentionTrigger (recording_handler ''second'')]" False "[''wagmi'', ''gm'']" "''gm''" "[]"]
  from th h1 h2 h3 have c1: "check_triggers ''gm'' ?c
     \<lparr>triggers = [] @ MentionTrigger (failing_handler ''first'') #
                  [MentionTrigger (recording_handler ''second'')]\<rparr> empty_process =
     Raise (Exception ''boom'')
       \<lparr>world = [''first''], logs = logs empty_process @ [Log INFO [S ''Mention trigger activated'']]\<rparr>"
    by blast
  from th h1 h4 h3 have c2: "check_triggers ''gm'' ?c
     \<lparr>triggers = [] @ KeywordTrigger [''wagmi'', ''gm''] False (failing_handler ''first'') #
                  [MentionTrigger (recording_handler ''second'')]\<rparr> empty_process =
     Raise (Exception ''boom'')
       \<lparr>world = [''first''], logs = logs empty_process @ [Log INFO [S ''Keyword trigger activated: '', S ''gm'']]\<rparr>"
    by blast
  from h4 have h4': "filter (\<lambda>k. str_contains k (lower ''gm'')) [''wagmi'', ''gm''] = [''gm'']" by simp
  from h1 h2 h3 h4' c1[unfolded l] c2[unfolded l] show ?thesis by simp
qed

subsection \<open>The result of check_triggers\<close>

text \<open>
  C6. When \<^verbatim>\<open>check_triggers\<close> returns, it returns true exactly when at least one
  registered rule fires, and it does return when no callback raises. A keyword rule fires
  exactly when one of its stored keywords is a substring of the message text, lowercased
  unless the rule is case-sensitive; the keywords are stored lowercased at registration
  unless the rule is case-sensitive.
\<close>

theorem check_triggers_true_iff_rule_fired:
  "(check_triggers message context tm p = Return b p1 \<longrightarrow>
      b = (\<exists>t \<in> set (triggers tm). rule_fires t message context)) \<and>
   ((\<forall>t \<in> set (triggers tm). \<forall>w. raised (handler_of t message context w) = None) \<longrightarrow>
      (\<exists>p2. check_triggers message context tm p =
         Return (\<exists>t \<in> set (triggers tm). rule_fires t message context) p2)) \<and>
   triggers (fst (add_keyword_trigger kws cb cs (tm, q))) =
      triggers tm @ [KeywordTrigger (if cs then kws else map lower kws) cs cb]"
proof (intro conjI impI)
  assume "check_triggers message context tm p = Return b p1"
  then show "b = (\<exists>t \<in> set (triggers tm). rule_fires t message context)"
    using trigger_loop_returned[of message "context" "triggers tm" False p b p1]
    by (simp add: check_triggers_def)
next
  assume "\<forall>t \<in> set (triggers tm). \<forall>w. raised (handler_of t message context w) = None"
  from trigger_loop_no_raise[OF this, of False p]
  obtain b p2 where r: "trigger_loop message context (triggers tm) False p = Return b p2"
    by blast
  from trigger_loop_returned[OF r]
  have "b = (\<exists>t \<in> set (triggers tm). rule_fires t message context)" by simp
  with r show "\<exists>p2. check_triggers message context tm p =
         Return (\<exists>t \<in> set (triggers tm). rule_fires t message context) p2"
    by (auto simp: check_triggers_def)
next
  show "triggers (fst (add_keyword_trigger kws cb cs (tm, q))) =
      triggers tm @ [KeywordTrigger (if cs then kws else map lower kws) cs cb]"
    by (simp add: add_keyword_trigger_def Let_def)
qed

theorem check_triggers_true_iff_rule_fired_witness:
  "(\<exists>p2. check_triggers ''GM fren'' Map.empty (fst gm_manager) empty_process = Return True p2) \<and>
   (\<exists>t \<in> set (triggers (fst gm_manager)). rule_fires t ''GM fren'' Map.empty) \<and>
   (\<exists>p2. check_triggers ''nothing relevant'' Map.empty (fst gm_manager) empty_process = Return False p2) \<and>
   \<not> (\<exists>t \<in> set (triggers (fst gm_manager)). rule_fires t ''nothing relevant'' Map.empty)"
proof -
  have nr: "\<forall>t \<in> set (triggers (fst gm_manager)). \<forall>w. raised (handler_of t m Map.empty w) = None" for m
    by (simp add: gm_triggers recording_handler_def)
  have f1: "\<exists>t \<in> set (triggers (fst gm_manager)). rule_fires t ''GM fren'' Map.empty"
    by (simp add: gm_triggers lower_gm_fren str_contains_sublist[symmetric])
  have f2: "\<not> (\<exists>t \<in> set (triggers (fst gm_manager)). rule_fires t ''nothing relevant'' Map.empty)"
    by (simp add: gm_triggers lower_nothing str_contains_sublist[symmetric])
  from check_triggers_true_iff_rule_fired[of "''GM fren''" Map.empty "fst gm_manager" empty_process] nr f1
  have c1: "\<exists>p2. check_triggers ''GM fren'' Map.empty (fst gm_manager) empty_process = Return True p2"
    by simp
  from check_triggers_true_iff_rule_fired[of "''nothing relevant''" Map.empty "fst gm_manager" empty_process] nr f2
  have c2: "\<exists>p2. check_triggers ''nothing relevant'' Map.empty (fst gm_manager) empty_process = Return False p2"
    by simp
  from c1 f1 c2 f2 show ?thesis by blast
qed

subsection \<open>Mention rules\<close>

text \<open>
  C7. Let the rules registered before return normally. A mention rule registered after
  them has its callback called, with the message and the context, exactly when the
  context gives \<^verbatim>\<open>is_mention\<close> a true value: it fires for \<^verbatim>\<open>True\<close>, and does not
  fire for \<^verbatim>\<open>False\<close> or when the key is absent. The test does not read the message.
\<close>

theorem mention_trigger_fires_iff_is_mention:
  assumes "check_triggers message context tm p = Return tr p1"
  shows "check_triggers message context (fst (add_mention_trigger cb (tm, q))) p =
           (if truthy (dict_get context ''is_mention'' (PyBool False)) then
              (case cb message context (world p1) of
                 Raise e w \<Rightarrow>
                   Raise e \<lparr>world = w, logs = logs p1 @ [Log INFO [S ''Mention trigger activated'']]\<rparr>
               | Return x w \<Rightarrow>
                   Return True \<lparr>world = w, logs = logs p1 @ [Log INFO [S ''Mention trigger activated'']]\<rparr>)
            else Return tr p1) \<and>
         (truthy (dict_get context ''is_mention'' (PyBool False)) \<longleftrightarrow>
            (\<exists>v. context ''is_mention'' = Some v \<and> truthy v)) \<and>
         (context ''is_mention'' = Some (PyBool True) \<longrightarrow>
            truthy (dict_get context ''is_mention'' (PyBool False))) \<and>
         (context ''is_mention'' = Some (PyBool False) \<or> context ''is_mention'' = None \<longrightarrow>
            \<not> truthy (dict_get context ''is_mention'' (PyBool False)))"
proof (intro conjI)
  have t: "triggers (fst (add_mention_trigger cb (tm, q))) = triggers tm @ [MentionTrigger cb]"
    by (simp add: add_mention_trigger_def Let_def)
  from assms have r: "trigger_loop message context (triggers tm) False p = Return tr p1"
    by (simp add: check_triggers_def)
  have "p1\<lparr>logs := logs p1 @ [Log INFO [S ''Mention trigger activated'']], world := w\<rparr> =
        \<lparr>world = w, logs = logs p1 @ [Log INFO [S ''Mention trigger activated'']]\<rparr>" for w
    by simp
  then show "check_triggers message context (fst (add_mention_trigger cb (tm, q))) p =
           (if truthy (dict_get context ''is_mention'' (PyBool False)) then
              (case cb message context (world p1) of
                 Raise e w \<Rightarrow>
                   Raise e \<lparr>world = w, logs = logs p1 @ [Log INFO [S ''Mention trigger activated'']]\<rparr>
               | Return x w \<Rightarrow>
                   Return True \<lparr>world = w, logs = logs p1 @ [Log INFO [S ''Mention trigger activated'']]\<rparr>)
            else Return tr p1)"
    by (simp add: check_triggers_def t trigger_loop_append r Let_def split: outcome.splits)
qed (auto simp: dict_get_def split: option.splits)

theorem mention_trigger_fires_iff_is_mention_witness:
  "check_triggers ''anything'' [''is_mention'' \<mapsto> PyBool True] \<lparr>triggers = []\<rparr> empty_process
     = Return False empty_process \<and>
   check_triggers ''anything'' [''is_mention'' \<mapsto> PyBool True]
     (fst (add_mention_trigger (recording_handler ''mention'') (\<lparr>triggers = []\<rparr>, empty_process)))
     empty_process
     = Return True \<lparr>world = [''mention''], logs = [Log INFO [S ''Mention trigger activated'']]\<rparr> \<and>
   check_triggers ''anything'' [''is_mention'' \<mapsto> PyBool False] \<lparr>triggers = []\<rparr> empty_process
     = Return False empty_process \<and>
   check_triggers ''anything'' [''is_mention'' \<mapsto> PyBool False]
     (fst (add_mention_trigger (recording_handler ''mention'') (\<lparr>triggers = []\<rparr>, empty_process)))
     empty_process
     = Return False empty_process \<and>
   check_triggers ''anything'' Map.empty
     (fst (add_mention_trigger (recording_handler ''mention'') (\<lparr>triggers = []\<rparr>, empty_process)))
     empty_process
     = Return False empty_process"
proof -
  have h: "check_triggers ''anything'' c \<lparr>triggers = []\<rparr> empty_process = Return False empty_process"
    for c :: py_dict
    by (simp add: check_triggers_def)
  have w: "world empty_process = []" and l: "logs empty_process = []"
    by (simp_all add: empty_process_def)
  from mention_trigger_fires_iff_is_mention[OF h, of "[''is_mention'' \<mapsto> PyBool True]"
      "recording_handler ''mention''" empty_process]
  have c1: "check_triggers ''anything'' [''is_mention'' \<mapsto> PyBool True]
     (fst (add_mention_trigger (recording_handler ''mention'') (\<lparr>triggers = []\<rparr>, empty_process)))
     empty_process
     = Return True \<lparr>world = [''mention''], logs = [Log INFO [S ''Mention trigger activated'']]\<rparr>"
    by (simp add: dict_get_def recording_handler_def w l)
  from mention_trigger_fires_iff_is_mention[OF h, of "[''is_mention'' \<mapsto> PyBool False]"
      "recording_handler ''mention''" empty_process]
  have c2: "check_triggers ''anything'' [''is_mention'' \<mapsto> PyBool False]
     (fst (add_mention_trigger (recording_handler ''mention'') (\<lparr>triggers = []\<rparr>, empty_process)))
     empty_process
     = Return False empty_process"
    by (simp add: dict_get_def)
  from mention_trigger_fires_iff_is_mention[OF h, of Map.empty
      "recording_handler ''mention''" empty_process]
  have c3: "check_triggers ''anything'' Map.empty
     (fst (add_mention_trigger (recording_handler ''mention'') (\<lparr>triggers = []\<rparr>, empty_process)))
     empty_process
     = Return False empty_process"
    by (simp add: dict_get_def)
  from h c1 c2 c3 show ?thesis by blast
qed

subsection \<open>One call for each matching keyword\<close>

text \<open>
  C10. Let the rules registered before return normally. A keyword rule registered after
  them has its callback called once for each keyword of its list that occurs in the
  message text, in the order of the list: the call of \<^verbatim>\<open>check_triggers\<close> raises, and
  leaves the world, as that many calls of the callback in a row do, and when it returns
  the log has gained one activation record for each such keyword.
\<close>

theorem keyword_callback_once_per_matching_keyword:
  assumes "check_triggers message context tm p = Return tr p1"
  shows "raised (check_triggers message context
                   \<lparr>triggers = triggers tm @ [KeywordTrigger kws cs cb]\<rparr> p) =
         raised (invoke_times
                   (length (filter (\<lambda>k. str_contains k (if cs then message else lower message)) kws))
                   (cb message context) (world p1)) \<and>
         world (final (check_triggers message context
                   \<lparr>triggers = triggers tm @ [KeywordTrigger kws cs cb]\<rparr> p)) =
         final (invoke_times
                   (length (filter (\<lambda>k. str_contains k (if cs then message else lower message)) kws))
                   (cb message context) (world p1)) \<and>
         (\<forall>p2 b. check_triggers message context
                   \<lparr>triggers = triggers tm @ [KeywordTrigger kws cs cb]\<rparr> p = Return b p2 \<longrightarrow>
            logs p2 = logs p1 @ map (\<lambda>k. Log INFO [S ''Keyword trigger activated: '', S k])
                       (filter (\<lambda>k. str_contains k (if cs then message else lower message)) kws))"
proof -
  let ?text = "if cs then message else lower message"
  from assms have r: "trigger_loop message context (triggers tm) False p = Return tr p1"
    by (simp add: check_triggers_def)
  have c: "check_triggers message context \<lparr>triggers = triggers tm @ [KeywordTrigger kws cs cb]\<rparr> p =
           (case keyword_loop cb message context ?text kws tr p1 of
              Raise e p2 \<Rightarrow> Raise e p2 | Return b p2 \<Rightarrow> Return b p2)"
    by (simp add: check_triggers_def trigger_loop_append r Let_def split: outcome.splits)
  have c': "check_triggers message context \<lparr>triggers = triggers tm @ [KeywordTrigger kws cs cb]\<rparr> p =
            keyword_loop cb message context ?text kws tr p1"
    unfolding c by (simp split: outcome.splits)
  show ?thesis
    unfolding c'
    using keyword_loop_invocations[of cb message "context" ?text kws tr p1]
      keyword_loop_logs[of cb message "context" ?text kws tr p1]
    by blast
qed

theorem keyword_callback_once_per_matching_keyword_witness:
  "check_triggers ''gm fren'' Map.empty \<lparr>triggers = []\<rparr> empty_process = Return False empty_process \<and>
   length (filter (\<lambda>k. str_contains k (lower ''gm fren'')) [''gm'', ''wagmi'', ''fren'']) = 2 \<and>
   world (final (check_triggers ''gm fren'' Map.empty
       \<lparr>triggers = [] @ [KeywordTrigger [''gm'', ''wagmi'', ''fren''] False (recording_handler ''reply'')]\<rparr>
       empty_process)) = [''reply'', ''reply'']"
proof -
  have h: "check_triggers ''gm fren'' Map.empty \<lparr>triggers = []\<rparr> empty_process = Return False empty_process"
    by (simp add: check_triggers_def)
  have n: "length (filter (\<lambda>k. str_contains k (lower ''gm fren'')) [''gm'', ''wagmi'', ''fren'']) = 2"
    by (simp add: lower_def lower_char_def)
  have i: "final (invoke_times 2 (recording_handler ''reply'' ''gm fren'' Map.empty) (world empty_process))
           = [''reply'', ''reply'']"
    by (simp add: numeral_2_eq_2 recording_handler_def empty_process_def)
  from keyword_callback_once_per_matching_keyword[OF h, of "[''gm'', ''wagmi'', ''fren'']" False
      "recording_handler ''reply''"]
  have "world (final (check_triggers ''gm fren'' Map.empty
       \<lparr>triggers = triggers \<lparr>triggers = []\<rparr> @ [KeywordTrigger [''gm'', ''wagmi'', ''fren''] False (recording_handler ''reply'')]\<rparr>
       empty_process)) =
     final (invoke_times (length (filter (\<lambda>k. str_contains k (lower ''gm fren'')) [''gm'', ''wagmi'', ''fren'']))
       (recording_handler ''reply'' ''gm fren'' Map.empty) (world empty_process))"
    by simp
  with n i h show ?thesis by simp
qed

subsection \<open>Tasks, passes and loops\<close>

lemma get_status_add_task:
  assumes "refs_in_range st"
  shows "get_status (add_task nm cb iv en st) =
     (running st,
      snd (get_status st) @
        [\<lparr>status_name = nm, status_enabled = en, status_interval = iv,
          status_last_run = None, status_run_count = 0\<rparr>])"
  using assms
  by (auto simp: get_status_def add_task_def refs_in_range_def task_at_def Let_def
      list_all_iff nth_append)

lemma refs_in_range_add_task: "refs_in_range st \<Longrightarrow> refs_in_range (add_task nm cb iv en st)"
  by (auto simp: refs_in_range_def add_task_def Let_def list_all_iff intro: less_SucI)

lemma refs_in_range_init: "refs_in_range (orchestrator_init vf p)"
  by (simp add: refs_in_range_def orchestrator_init_def)

lemma run_task_caught:
  assumes "callback (task_at st t) (world st) = Raise (Exception m) w"
  shows "run_task now t st =
     Return () (st\<lparr>world := w,
                   logs := logs st @ [Log INFO [S ''Executing task: '', S (name (task_at st t))],
                                      Log ERROR [S ''Task '', S (name (task_at st t)), S '' failed: '', S m]]\<rparr>)"
  using assms by (simp add: run_task_def Let_def task_at_def)

lemma run_task_success:
  assumes "callback (task_at st t) (world st) = Return x w" and "t < length (store st)"
  shows "\<exists>st1. run_task now t st = Return () st1 \<and> world st1 = w \<and>
           task_at st1 t = (task_at st t)\<lparr>last_run := Some now, run_count := run_count (task_at st t) + 1\<rparr>"
  using assms by (simp add: run_task_def Let_def task_at_def set_task_def)


lemma enable_loop_fields:
  "world (enable_loop nm ts st) = world st \<and> running (enable_loop nm ts st) = running st \<and>
   tasks (enable_loop nm ts st) = tasks st \<and> loops (enable_loop nm ts st) = loops st \<and>
   variance_factor (enable_loop nm ts st) = variance_factor st \<and>
   length (store (enable_loop nm ts st)) = length (store st)"
  by (induction ts arbitrary: st) (simp_all add: set_task_def)

lemma enable_loop_store:
  "i < length (store st) \<Longrightarrow>
     store (enable_loop nm ts st) ! i =
       (if i \<in> set ts \<and> name (store st ! i) = nm then (store st ! i)\<lparr>enabled := True\<rparr>
        else store st ! i)"
proof (induction ts arbitrary: st)
  case Nil
  then show ?case by simp
next
  case (Cons t ts)
  show ?case
  proof (cases "name (task_at st t) = nm")
    case False
    with Cons show ?thesis by (auto simp: task_at_def)
  next
    case True
    let ?st1 = "(set_task t ((task_at st t)\<lparr>enabled := True\<rparr>) st)
                  \<lparr>logs := logs st @ [Log INFO [S ''Enabled task: '', S nm]]\<rparr>"
    have len: "i < length (store ?st1)" using Cons.prems by (simp add: set_task_def)
    have nth: "store ?st1 ! i = (if i = t then (store st ! i)\<lparr>enabled := True\<rparr> else store st ! i)"
      using Cons.prems by (simp add: set_task_def task_at_def nth_list_update)
    from True have e: "enable_loop nm (t # ts) st = enable_loop nm ts ?st1" by simp
    show ?thesis
      unfolding e Cons.IH[OF len] nth using True by (auto simp: task_at_def)
  qed
qed

lemma enable_task_counts:
  "i < length (store st) \<Longrightarrow>
     run_count (task_at (enable_task nm st) i) = run_count (task_at st i) \<and>
     last_run (task_at (enable_task nm st) i) = last_run (task_at st i) \<and>
     name (task_at (enable_task nm st) i) = name (task_at st i) \<and>
     callback (task_at (enable_task nm st) i) = callback (task_at st i) \<and>
     interval_seconds (task_at (enable_task nm st) i) = interval_seconds (task_at st i)"
  by (simp add: enable_task_def task_at_def enable_loop_store)

lemma enable_task_enabled:
  "t < length (store st) \<Longrightarrow> t \<in> set (tasks st) \<Longrightarrow>
     enabled (task_at (enable_task (name (task_at st t)) st) t)"
  by (simp add: enable_task_def task_at_def enable_loop_store)

text \<open>Every operation keeps the references that are held in range.\<close>

lemma disable_loop_fields:
  "tasks (disable_loop nm ts st) = tasks st \<and> loops (disable_loop nm ts st) = loops st \<and>
   length (store (disable_loop nm ts st)) = length (store st)"
  by (induction ts arbitrary: st) (simp_all add: set_task_def)

lemma refs_in_range_preserved:
  assumes "refs_in_range st"
  shows "refs_in_range (remove_task nm st)" and "refs_in_range (enable_task nm st)"
    and "refs_in_range (disable_task nm st)" and "refs_in_range (start st)"
    and "refs_in_range (stop st)" and "refs_in_range (final (run_task now t st))"
proof -
  show "refs_in_range (remove_task nm st)"
    using assms by (auto simp: refs_in_range_def remove_task_def list_all_iff)
  show "refs_in_range (enable_task nm st)"
    using assms by (simp add: refs_in_range_def enable_task_def enable_loop_fields)
  show "refs_in_range (disable_task nm st)"
    using assms by (simp add: refs_in_range_def disable_task_def disable_loop_fields)
  show "refs_in_range (start st)"
    using assms by (auto simp: refs_in_range_def start_def list_all_iff)
  show "refs_in_range (stop st)"
    using assms by (simp add: refs_in_range_def stop_def)
  show "refs_in_range (final (run_task now t st))"
    using assms
    by (simp add: refs_in_range_def run_task_def set_task_def Let_def
        split: outcome.splits exn.splits)
qed

lemma task_loop_pass_disabled:
  assumes "running st" and "\<not> enabled (task_at st t)"
  shows "task_loop_pass now u t st =
     Sleep (calculate_next_run u (task_at st t) st)
       (st\<lparr>logs := logs st @
           [Log DEBUG [S ''Task '', S (name (task_at st t)), S '' next run in '',
                       F (calculate_next_run u (task_at st t) st), S ''s'']]\<rparr>)"
  using assms by (simp add: task_loop_pass_def Let_def task_at_def calculate_next_run_def)

lemma task_loop_append:
  "task_loop (tks1 @ tks2) t st =
     (case task_loop tks1 t st of
        Suspended st1 \<Rightarrow> task_loop tks2 t st1
      | Exited st1 \<Rightarrow> Exited st1
      | Propagated e st1 \<Rightarrow> Propagated e st1)"
  by (induction tks1 arbitrary: st) (auto split: pass.splits)

lemma task_loop_disabled_exact:
  assumes "running st" and "\<not> enabled (task_at st t)"
    and "list_all (\<lambda>tk. snd (snd tk) = (\<lambda>s. s)) tks"
  shows "task_loop tks t st =
     Suspended (st\<lparr>logs := logs st @
        map (\<lambda>tk. Log DEBUG [S ''Task '', S (name (task_at st t)), S '' next run in '',
                              F (calculate_next_run (fst (snd tk)) (task_at st t) st), S ''s''])
            tks\<rparr>)"
  using assms
proof (induction tks arbitrary: st)
  case Nil
  then show ?case by simp
next
  case (Cons tk tks)
  obtain now u others where tk: "tk = (now, u, others)" by (cases tk) auto
  with Cons.prems have o: "others = (\<lambda>s. s)"
    and rest: "list_all (\<lambda>tk. snd (snd tk) = (\<lambda>s. s)) tks" by simp_all
  let ?r = "Log DEBUG [S ''Task '', S (name (task_at st t)), S '' next run in '',
                       F (calculate_next_run u (task_at st t) st), S ''s'']"
  let ?st1 = "st\<lparr>logs := logs st @ [?r]\<rparr>"
  have p: "task_loop_pass now u t st = Sleep (calculate_next_run u (task_at st t) st) ?st1"
    using Cons.prems by (simp add: task_loop_pass_disabled)
  have r: "running ?st1" "\<not> enabled (task_at ?st1 t)"
    using Cons.prems by (simp_all add: task_at_def)
  have same: "task_at ?st1 t = task_at st t"
    "calculate_next_run v (task_at st t) ?st1 = calculate_next_run v (task_at st t) st" for v
    by (simp_all add: task_at_def calculate_next_run_def)
  show ?case
    by (simp add: tk o p Cons.IH[OF r rest] same)
qed

lemma task_loop_pass_runs_action:
  assumes "running st" and "enabled (task_at st t)"
  shows "(case task_loop_pass now u t st of
            Sleep d st1 \<Rightarrow> world st1 | Exit st1 \<Rightarrow> world st1 | Propagate e st1 \<Rightarrow> world st1) =
         final (callback (task_at st t) (world st))"
  using assms
  by (simp add: task_loop_pass_def run_task_def Let_def task_at_def set_task_def
      split: outcome.splits exn.splits)

lemma failing_orchestrator_eq:
  "failing_orchestrator =
     \<lparr>world = [], logs = [Log INFO [S ''Orchestrator initialized''],
                          Log INFO [S ''Added task: '', S ''post'', S '' (interval: '', I 10, S ''s)''],
                          Log INFO [S ''Starting orchestrator...'']],
      variance_factor = 1 / 5, tasks = [0], running = True,
      store = [\<lparr>name = ''post'', callback = failing_action ''post'', interval_seconds = 10,
                enabled = True, last_run = None, run_count = 0\<rparr>],
      loops = [0]\<rparr>"
  by (simp add: failing_orchestrator_def start_def add_task_def fresh_orchestrator_def
      orchestrator_init_def empty_process_def Let_def)

lemma posting_orchestrator_eq:
  "posting_orchestrator =
     \<lparr>world = [], logs = [Log INFO [S ''Orchestrator initialized''],
                          Log INFO [S ''Added task: '', S ''post'', S '' (interval: '', I 10, S ''s)''],
                          Log INFO [S ''Starting orchestrator...'']],
      variance_factor = 1 / 5, tasks = [0], running = True,
      store = [\<lparr>name = ''post'', callback = recording_action ''post'', interval_seconds = 10,
                enabled = True, last_run = None, run_count = 0\<rparr>],
      loops = [0]\<rparr>"
  by (simp add: posting_orchestrator_def start_def add_task_def fresh_orchestrator_def
      orchestrator_init_def empty_process_def Let_def)

lemma disabled_orchestrator_eq:
  "disabled_orchestrator =
     \<lparr>world = [], logs = [Log INFO [S ''Orchestrator initialized''],
                          Log INFO [S ''Added task: '', S ''post'', S '' (interval: '', I 10, S ''s)''],
                          Log INFO [S ''Starting orchestrator...''],
                          Log INFO [S ''Disabled task: '', S ''post'']],
      variance_factor = 1 / 5, tasks = [0], running = True,
      store = [\<lparr>name = ''post'', callback = recording_action ''post'', interval_seconds = 10,
                enabled = False, last_run = None, run_count = 0\<rparr>],
      loops = [0]\<rparr>"
  by (simp add: disabled_orchestrator_def posting_orchestrator_eq disable_task_def task_at_def
      set_task_def)

lemma task_loop_pass_success:
  assumes "running st" and "enabled (task_at st t)" and "t < length (store st)"
    and "callback (task_at st t) (world st) = Return x w"
  shows "\<exists>d st1. task_loop_pass now u t st = Sleep d st1 \<and> world st1 = w \<and>
           run_count (task_at st1 t) = run_count (task_at st t) + 1 \<and>
           last_run (task_at st1 t) = Some now"
proof -
  from run_task_success[OF assms(4,3), of now] obtain st1 where
    r: "run_task now t st = Return () st1" and w: "world st1 = w" and
    t: "task_at st1 t = (task_at st t)\<lparr>last_run := Some now, run_count := run_count (task_at st t) + 1\<rparr>"
    by blast
  from assms(1,2) r w t show ?thesis
    by (simp add: task_loop_pass_def Let_def task_at_def)
qed

lemma enable_tick:
  assumes "running s" and "\<not> enabled (task_at s t)"
    and "t < length (store s)" and "t \<in> set (tasks s)"
  shows "\<exists>s1. task_loop [(now1, u1, enable_task (name (task_at s t)))] t s = Suspended s1 \<and>
           world s1 = world s \<and> running s1 \<and> enabled (task_at s1 t) \<and>
           t < length (store s1) \<and> callback (task_at s1 t) = callback (task_at s t) \<and>
           run_count (task_at s1 t) = run_count (task_at s t) \<and>
           last_run (task_at s1 t) = last_run (task_at s t)"
proof -
  let ?r = "Log DEBUG [S ''Task '', S (name (task_at s t)), S '' next run in '',
                       F (calculate_next_run u1 (task_at s t) s), S ''s'']"
  let ?s1 = "s\<lparr>logs := logs s @ [?r]\<rparr>"
  let ?s2 = "enable_task (name (task_at s t)) ?s1"
  have p: "task_loop_pass now1 u1 t s = Sleep (calculate_next_run u1 (task_at s t) s) ?s1"
    by (rule task_loop_pass_disabled[OF assms(1,2)])
  have a: "task_at ?s1 t = task_at s t" "t < length (store ?s1)" "t \<in> set (tasks ?s1)"
    "world ?s1 = world s" "running ?s1"
    using assms by (simp_all add: task_at_def)
  have l: "task_loop [(now1, u1, enable_task (name (task_at s t)))] t s = Suspended ?s2"
    by (simp add: p)
  have f: "world ?s2 = world ?s1" "running ?s2 = running ?s1"
    "length (store ?s2) = length (store ?s1)"
    by (simp_all add: enable_task_def enable_loop_fields)
  note c = enable_task_counts[OF a(2), of "name (task_at s t)"]
  have e: "enabled (task_at ?s2 t)"
    using enable_task_enabled[OF a(2,3)] by (simp add: a(1))
  from l f c e a show ?thesis by simp
qed

lemma remove_task_fields:
  "store (remove_task nm st) = store st \<and> loops (remove_task nm st) = loops st \<and>
   running (remove_task nm st) = running st \<and> world (remove_task nm st) = world st \<and>
   variance_factor (remove_task nm st) = variance_factor st"
  by (simp add: remove_task_def)

subsection \<open>An action that raises\<close>

text \<open>
  C1, as the claim states it, fails. The task \<open>post\<close> has an action that raises
  \<^verbatim>\<open>Exception("boom")\<close>. \<^verbatim>\<open>_run_task\<close> returns normally and the action has run,
  but \<^verbatim>\<open>run_count\<close> is 0 before and after, and \<^verbatim>\<open>last_run\<close> is still unset.
\<close>

theorem run_task_failure_counterexample:
  "raised (run_task 1000 0 failing_orchestrator) = None \<and>
   world (final (run_task 1000 0 failing_orchestrator)) = [''post''] \<and>
   run_count (task_at failing_orchestrator 0) = 0 \<and>
   run_count (task_at (final (run_task 1000 0 failing_orchestrator)) 0) = 0 \<and>
   last_run (task_at (final (run_task 1000 0 failing_orchestrator)) 0) = None"
  by (simp add: failing_orchestrator_eq run_task_def task_at_def failing_action_def Let_def)

text \<open>
  C1, amended. When the action of a task raises an \<^verbatim>\<open>Exception\<close>, \<^verbatim>\<open>_run_task\<close>
  catches it, logs the failure and returns; the pass of the task loop goes on to its
  sleep of at least 1 second; and the task is left as it was, \<^verbatim>\<open>run_count\<close> and
  \<^verbatim>\<open>last_run\<close> included. Only when the action returns is \<^verbatim>\<open>run_count\<close>
  incremented by one and \<^verbatim>\<open>last_run\<close> set to the current time.
\<close>

theorem run_task_failure_caught_not_counted:
  "(callback (task_at st t) (world st) = Raise (Exception m) w \<longrightarrow>
      run_task now t st =
        Return () (st\<lparr>world := w,
                      logs := logs st @
                        [Log INFO [S ''Executing task: '', S (name (task_at st t))],
                         Log ERROR [S ''Task '', S (name (task_at st t)), S '' failed: '', S m]]\<rparr>) \<and>
      (running st \<and> enabled (task_at st t) \<longrightarrow>
         (\<exists>d st1. task_loop_pass now u t st = Sleep d st1 \<and> 1 \<le> d \<and> store st1 = store st))) \<and>
   (callback (task_at st t) (world st) = Return x w2 \<and> t < length (store st) \<longrightarrow>
      (\<exists>st1. run_task now t st = Return () st1 \<and> world st1 = w2 \<and>
         task_at st1 t =
           (task_at st t)\<lparr>last_run := Some now, run_count := run_count (task_at st t) + 1\<rparr>))"
proof (intro conjI impI)
  assume a: "callback (task_at st t) (world st) = Raise (Exception m) w"
  show r: "run_task now t st =
        Return () (st\<lparr>world := w,
                      logs := logs st @
                        [Log INFO [S ''Executing task: '', S (name (task_at st t))],
                         Log ERROR [S ''Task '', S (name (task_at st t)), S '' failed: '', S m]]\<rparr>)"
    by (rule run_task_caught[OF a])
  assume "running st \<and> enabled (task_at st t)"
  then show "\<exists>d st1. task_loop_pass now u t st = Sleep d st1 \<and> 1 \<le> d \<and> store st1 = store st"
    by (simp add: task_loop_pass_def r Let_def calculate_next_run_ge_1)
next
  assume "callback (task_at st t) (world st) = Return x w2 \<and> t < length (store st)"
  then show "\<exists>st1. run_task now t st = Return () st1 \<and> world st1 = w2 \<and>
         task_at st1 t =
           (task_at st t)\<lparr>last_run := Some now, run_count := run_count (task_at st t) + 1\<rparr>"
    using run_task_success[of st t x w2 now] by blast
qed

theorem run_task_failure_caught_not_counted_witness:
  "callback (task_at failing_orchestrator 0) (world failing_orchestrator) = Raise (Exception ''boom'') [''post''] \<and>
   (running failing_orchestrator \<and> enabled (task_at failing_orchestrator 0)) \<and>
   store (final (run_task 1000 0 failing_orchestrator)) = store failing_orchestrator \<and>
   (\<exists>d st1. task_loop_pass 1000 (1 / 2) 0 failing_orchestrator = Sleep d st1 \<and> 1 \<le> d \<and>
      store st1 = store failing_orchestrator) \<and>
   (callback (task_at posting_orchestrator 0) (world posting_orchestrator) = Return () [''post''] \<and>
    0 < length (store posting_orchestrator)) \<and>
   (\<exists>st1. run_task 1000 0 posting_orchestrator = Return () st1 \<and> world st1 = [''post''] \<and>
      run_count (task_at st1 0) = 1 \<and> last_run (task_at st1 0) = Some 1000)"
proof -
  have h1: "callback (task_at failing_orchestrator 0) (world failing_orchestrator) = Raise (Exception ''boom'') [''post'']"
    by (simp add: failing_orchestrator_eq task_at_def failing_action_def)
  have h2: "running failing_orchestrator \<and> enabled (task_at failing_orchestrator 0)"
    by (simp add: failing_orchestrator_eq task_at_def)
  have h3: "callback (task_at posting_orchestrator 0) (world posting_orchestrator) = Return () [''post''] \<and>
    0 < length (store posting_orchestrator)"
    by (simp add: posting_orchestrator_eq task_at_def recording_action_def)
  have rc: "run_count (task_at posting_orchestrator 0) = 0"
    by (simp add: posting_orchestrator_eq task_at_def)
  note t1 = run_task_failure_caught_not_counted[of failing_orchestrator 0 "''boom''" "[''post'']" 1000 "1 / 2",
      THEN conjunct1, rule_format, OF h1]
  note t2 = run_task_failure_caught_not_counted[of posting_orchestrator 0 _ _ _ _ "()" "[''post'']",
      THEN conjunct2, rule_format, OF h3]
  from t1 have c1: "store (final (run_task 1000 0 failing_orchestrator)) = store failing_orchestrator"
    by simp
  from t1 h2 have c2: "\<exists>d st1. task_loop_pass 1000 (1 / 2) 0 failing_orchestrator = Sleep d st1 \<and> 1 \<le> d \<and>
      store st1 = store failing_orchestrator"
    by blast
  from t2[of 1000] rc have c3: "\<exists>st1. run_task 1000 0 posting_orchestrator = Return () st1 \<and> world st1 = [''post''] \<and>
      run_count (task_at st1 0) = 1 \<and> last_run (task_at st1 0) = Some 1000"
    by auto
  from h1 h2 c1 c2 h3 c3 show ?thesis by blast
qed

subsection \<open>Registering a task\<close>

text \<open>
  C3, as the claim states it, fails. After \<^verbatim>\<open>add_task("x", ..., 10)\<close> the call
  \<^verbatim>\<open>add_task("x", ..., 20)\<close> registers a second task named \<open>x\<close>: the status lists
  both.
\<close>

theorem add_task_duplicate_counterexample:
  "get_status (add_task ''x'' (recording_action ''second'') 20 True
                (add_task ''x'' (recording_action ''first'') 10 True fresh_orchestrator)) =
     (False,
      [\<lparr>status_name = ''x'', status_enabled = True, status_interval = 10,
        status_last_run = None, status_run_count = 0\<rparr>,
       \<lparr>status_name = ''x'', status_enabled = True, status_interval = 20,
        status_last_run = None, status_run_count = 0\<rparr>])"
  by (simp add: get_status_def add_task_def fresh_orchestrator_def orchestrator_init_def
      empty_process_def task_at_def Let_def)

text \<open>
  C3, amended. \<^verbatim>\<open>add_task\<close> with a name that is already registered signals nothing:
  it appends a further task with that name after the registered ones. The tasks
  registered before are left unchanged, the interval of each included.
\<close>

theorem add_task_duplicate_name_appends:
  assumes "refs_in_range st" and "nm \<in> set (map status_name (snd (get_status st)))"
  shows "get_status (add_task nm cb iv en st) =
           (running st,
            snd (get_status st) @
              [\<lparr>status_name = nm, status_enabled = en, status_interval = iv,
                status_last_run = None, status_run_count = 0\<rparr>]) \<and>
         tasks (add_task nm cb iv en st) = tasks st @ [length (store st)] \<and>
         (\<forall>t \<in> set (tasks st). task_at (add_task nm cb iv en st) t = task_at st t)"
proof (intro conjI ballI)
  show "get_status (add_task nm cb iv en st) =
           (running st,
            snd (get_status st) @
              [\<lparr>status_name = nm, status_enabled = en, status_interval = iv,
                status_last_run = None, status_run_count = 0\<rparr>])"
    by (rule get_status_add_task[OF assms(1)])
next
  show "tasks (add_task nm cb iv en st) = tasks st @ [length (store st)]"
    by (simp add: add_task_def Let_def)
next
  fix t assume "t \<in> set (tasks st)"
  with assms(1) have "t < length (store st)"
    by (simp add: refs_in_range_def list_all_iff)
  then show "task_at (add_task nm cb iv en st) t = task_at st t"
    by (simp add: add_task_def task_at_def Let_def nth_append)
qed

theorem add_task_duplicate_name_appends_witness:
  "refs_in_range (add_task ''x'' (recording_action ''first'') 10 True fresh_orchestrator) \<and>
   ''x'' \<in> set (map status_name (snd (get_status (add_task ''x'' (recording_action ''first'') 10 True fresh_orchestrator)))) \<and>
   map status_interval (snd (get_status (add_task ''x'' (recording_action ''second'') 20 True
      (add_task ''x'' (recording_action ''first'') 10 True fresh_orchestrator)))) = [10, 20] \<and>
   interval_seconds (task_at (add_task ''x'' (recording_action ''second'') 20 True
      (add_task ''x'' (recording_action ''first'') 10 True fresh_orchestrator)) 0) = 10"
proof -
  let ?st = "add_task ''x'' (recording_action ''first'') 10 True fresh_orchestrator"
  have h1: "refs_in_range ?st"
    by (simp add: fresh_orchestrator_def refs_in_range_add_task refs_in_range_init)
  have s: "snd (get_status ?st) =
      [\<lparr>status_name = ''x'', status_enabled = True, status_interval = 10,
        status_last_run = None, status_run_count = 0\<rparr>]"
    by (simp add: get_status_def add_task_def fresh_orchestrator_def orchestrator_init_def
        empty_process_def task_at_def Let_def)
  have h2: "''x'' \<in> set (map status_name (snd (get_status ?st)))"
    by (simp add: s)
  have t0: "0 \<in> set (tasks ?st)" and i0: "interval_seconds (task_at ?st 0) = 10"
    by (simp_all add: add_task_def fresh_orchestrator_def orchestrator_init_def task_at_def Let_def)
  note th = add_task_duplicate_name_appends[OF h1 h2, of "recording_action ''second''" 20 True]
  from th have c1: "map status_interval (snd (get_status (add_task ''x'' (recording_action ''second'') 20 True ?st))) = [10, 20]"
    by (simp add: s)
  from th t0 have "task_at (add_task ''x'' (recording_action ''second'') 20 True ?st) 0 = task_at ?st 0"
    by blast
  with i0 have c2: "interval_seconds (task_at (add_task ''x'' (recording_action ''second'') 20 True ?st) 0) = 10"
    by simp
  from h1 h2 c1 c2 show ?thesis by blast
qed

text \<open>
  C4, as the claim states it, fails. \<^verbatim>\<open>add_task("x", ..., 0)\<close> and
  \<^verbatim>\<open>add_task("x", ..., -5)\<close> on a new orchestrator each register the task.
\<close>

theorem add_task_invalid_interval_counterexample:
  "snd (get_status (add_task ''x'' (recording_action ''x'') 0 True fresh_orchestrator)) =
     [\<lparr>status_name = ''x'', status_enabled = True, status_interval = 0,
       status_last_run = None, status_run_count = 0\<rparr>] \<and>
   snd (get_status (add_task ''x'' (recording_action ''x'') (- 5) True fresh_orchestrator)) =
     [\<lparr>status_name = ''x'', status_enabled = True, status_interval = - 5,
       status_last_run = None, status_run_count = 0\<rparr>]"
  by (simp add: get_status_def add_task_def fresh_orchestrator_def orchestrator_init_def
      empty_process_def task_at_def Let_def)

text \<open>
  C4, amended. \<^verbatim>\<open>add_task\<close> with an interval of 0 or a negative interval signals
  nothing: it registers the task, with that interval, as it does for any other interval.
  With a variance factor from 0 to 1, every sleep of the loop of such a task is then the
  minimum of 1 second.
\<close>

theorem add_task_accepts_nonpositive_interval:
  assumes "iv \<le> 0"
  shows "tasks (add_task nm cb iv en st) = tasks st @ [length (store st)] \<and>
         task_at (add_task nm cb iv en st) (length (store st)) =
           \<lparr>name = nm, callback = cb, interval_seconds = iv, enabled = en,
            last_run = None, run_count = 0\<rparr> \<and>
         length (snd (get_status (add_task nm cb iv en st))) = Suc (length (snd (get_status st))) \<and>
         (0 \<le> variance_factor st \<and> variance_factor st \<le> 1 \<and> 0 \<le> u \<and> u \<le> 1 \<longrightarrow>
            calculate_next_run u (task_at (add_task nm cb iv en st) (length (store st)))
              (add_task nm cb iv en st) = 1)"
proof -
  let ?st = "add_task nm cb iv en st"
  have t: "task_at ?st (length (store st)) =
           \<lparr>name = nm, callback = cb, interval_seconds = iv, enabled = en,
            last_run = None, run_count = 0\<rparr>"
    by (simp add: add_task_def task_at_def Let_def)
  have vf: "variance_factor ?st = variance_factor st"
    by (simp add: add_task_def Let_def)
  have i: "interval_seconds (task_at ?st (length (store st))) \<le> 0"
    using assms by (simp add: t)
  have c: "0 \<le> variance_factor st \<and> variance_factor st \<le> 1 \<and> 0 \<le> u \<and> u \<le> 1 \<longrightarrow>
            calculate_next_run u (task_at ?st (length (store st))) ?st = 1"
    using calculate_next_run_nonpositive[OF i, of ?st u] by (simp add: vf)
  have "tasks ?st = tasks st @ [length (store st)]"
    by (simp add: add_task_def Let_def)
  moreover have "length (snd (get_status ?st)) = Suc (length (snd (get_status st)))"
    by (simp add: add_task_def get_status_def Let_def)
  ultimately show ?thesis using t c by blast
qed

theorem add_task_accepts_nonpositive_interval_witness:
  "(- 5 :: int) \<le> 0 \<and>
   ((0::real) \<le> variance_factor fresh_orchestrator \<and> variance_factor fresh_orchestrator \<le> 1 \<and>
    (0::real) \<le> 1 / 2 \<and> (1::real) / 2 \<le> 1) \<and>
   tasks (add_task ''x'' (recording_action ''x'') (- 5) True fresh_orchestrator) = [0] \<and>
   interval_seconds (task_at (add_task ''x'' (recording_action ''x'') (- 5) True fresh_orchestrator) 0) = - 5 \<and>
   calculate_next_run (1 / 2)
     (task_at (add_task ''x'' (recording_action ''x'') (- 5) True fresh_orchestrator) 0)
     (add_task ''x'' (recording_action ''x'') (- 5) True fresh_orchestrator) = 1"
proof -
  have h: "(- 5 :: int) \<le> 0" by simp
  have e: "tasks fresh_orchestrator = []" "length (store fresh_orchestrator) = 0"
    by (simp_all add: fresh_orchestrator_def orchestrator_init_def)
  have v: "(0::real) \<le> variance_factor fresh_orchestrator \<and> variance_factor fresh_orchestrator \<le> 1 \<and>
    (0::real) \<le> 1 / 2 \<and> (1::real) / 2 \<le> 1"
    by (simp add: fresh_orchestrator_def orchestrator_init_def)
  note th = add_task_accepts_nonpositive_interval[OF h, of "''x''" "recording_action ''x''" True
      fresh_orchestrator "1 / 2", unfolded e]
  from th have c1: "tasks (add_task ''x'' (recording_action ''x'') (- 5) True fresh_orchestrator) = [0]"
    by (simp add: e)
  from th have "task_at (add_task ''x'' (recording_action ''x'') (- 5) True fresh_orchestrator) 0 =
           \<lparr>name = ''x'', callback = recording_action ''x'', interval_seconds = - 5, enabled = True,
            last_run = None, run_count = 0\<rparr>"
    by (simp add: e)
  then have c2: "interval_seconds (task_at (add_task ''x'' (recording_action ''x'') (- 5) True fresh_orchestrator) 0) = - 5"
    by simp
  from th v have c3: "calculate_next_run (1 / 2)
     (task_at (add_task ''x'' (recording_action ''x'') (- 5) True fresh_orchestrator) 0)
     (add_task ''x'' (recording_action ''x'') (- 5) True fresh_orchestrator) = 1"
    by blast
  from h v c1 c2 c3 show ?thesis by blast
qed

subsection \<open>A disabled task\<close>

text \<open>
  C8. Let the orchestrator be running and the task of a loop be registered and
  disabled. A pass of the loop skips the action and sleeps for the jittered interval, at
  least 1 second, leaving the tasks and the world unchanged. The loop itself, over any
  number of ticks during which nothing else happens, makes one such pass for each tick -
  the log gains the record of each sleep, in order - and is then still alive, with
  nothing else changed. When \<^verbatim>\<open>enable_task\<close> is called during the sleep that follows
  one more pass, the loop is still suspended with the world, \<^verbatim>\<open>run_count\<close> and
  \<^verbatim>\<open>last_run\<close> as they were: the action has not run. On its next tick the same loop
  runs the action, and when the action returns, \<^verbatim>\<open>run_count\<close> is one more and
  \<^verbatim>\<open>last_run\<close> is the time of that tick. The last four conjuncts say the same of
  \<^verbatim>\<open>enable_task\<close> and of a single pass taken alone.
\<close>

theorem disabled_task_ticks_without_running:
  assumes "running st" and "\<not> enabled (task_at st t)"
    and "t < length (store st)" and "t \<in> set (tasks st)"
  shows "task_loop_pass now u t st =
           Sleep (calculate_next_run u (task_at st t) st)
             (st\<lparr>logs := logs st @
                 [Log DEBUG [S ''Task '', S (name (task_at st t)), S '' next run in '',
                             F (calculate_next_run u (task_at st t) st), S ''s'']]\<rparr>) \<and>
         1 \<le> calculate_next_run u (task_at st t) st \<and>
         (list_all (\<lambda>tk. snd (snd tk) = (\<lambda>s. s)) tks \<longrightarrow>
            task_loop tks t st =
              Suspended (st\<lparr>logs := logs st @
                map (\<lambda>tk. Log DEBUG [S ''Task '', S (name (task_at st t)), S '' next run in '',
                                      F (calculate_next_run (fst (snd tk)) (task_at st t) st), S ''s''])
                    tks\<rparr>)) \<and>
         (list_all (\<lambda>tk. snd (snd tk) = (\<lambda>s. s)) tks \<longrightarrow>
            (\<exists>st1. task_loop (tks @ [(now1, u1, enable_task (name (task_at st t)))]) t st =
                     Suspended st1 \<and>
                   world st1 = world st \<and> running st1 \<and> enabled (task_at st1 t) \<and>
                   run_count (task_at st1 t) = run_count (task_at st t) \<and>
                   last_run (task_at st1 t) = last_run (task_at st t))) \<and>
         (list_all (\<lambda>tk. snd (snd tk) = (\<lambda>s. s)) tks \<longrightarrow>
            world (loop_state (task_loop
                (tks @ [(now1, u1, enable_task (name (task_at st t))), (now2, u2, \<lambda>s. s)]) t st)) =
              final (callback (task_at st t) (world st))) \<and>
         (list_all (\<lambda>tk. snd (snd tk) = (\<lambda>s. s)) tks \<and>
          callback (task_at st t) (world st) = Return x w \<longrightarrow>
            (\<exists>st2. task_loop
                (tks @ [(now1, u1, enable_task (name (task_at st t))), (now2, u2, \<lambda>s. s)]) t st =
                     Suspended st2 \<and>
                   world st2 = w \<and> run_count (task_at st2 t) = run_count (task_at st t) + 1 \<and>
                   last_run (task_at st2 t) = Some now2)) \<and>
         world (enable_task (name (task_at st t)) st) = world st \<and>
         run_count (task_at (enable_task (name (task_at st t)) st) t) = run_count (task_at st t) \<and>
         last_run (task_at (enable_task (name (task_at st t)) st) t) = last_run (task_at st t) \<and>
         world (pass_state (task_loop_pass now2 u2 t (enable_task (name (task_at st t)) st))) =
           final (callback (task_at st t) (world st)) \<and>
         (callback (task_at st t) (world st) = Return x w \<longrightarrow>
            (\<exists>d st1. task_loop_pass now2 u2 t (enable_task (name (task_at st t)) st) = Sleep d st1 \<and>
               world st1 = w \<and> run_count (task_at st1 t) = run_count (task_at st t) + 1 \<and>
               last_run (task_at st1 t) = Some now2))"
proof -
  let ?nm = "name (task_at st t)"
  let ?st2 = "enable_task ?nm st"
  let ?quiet = "list_all (\<lambda>tk. snd (snd tk) = (\<lambda>s. s)) tks"
  let ?rec = "\<lambda>tk. Log DEBUG [S ''Task '', S ?nm, S '' next run in '',
                       F (calculate_next_run (fst (snd tk)) (task_at st t) st), S ''s'']"
  let ?sq = "st\<lparr>logs := logs st @ map ?rec tks\<rparr>"
  let ?t1 = "(now1, u1, enable_task ?nm)"
  let ?t2 = "(now2, u2, \<lambda>s :: 'a orchestrator. s)"
  have f: "world ?st2 = world st" "running ?st2 = running st" "length (store ?st2) = length (store st)"
    by (simp_all add: enable_task_def enable_loop_fields)
  note c = enable_task_counts[OF assms(3), of ?nm]
  have e: "enabled (task_at ?st2 t)"
    by (rule enable_task_enabled[OF assms(3,4)])
  have p1: "task_loop_pass now u t st =
           Sleep (calculate_next_run u (task_at st t) st)
             (st\<lparr>logs := logs st @
                 [Log DEBUG [S ''Task '', S ?nm, S '' next run in '',
                             F (calculate_next_run u (task_at st t) st), S ''s'']]\<rparr>)"
    by (rule task_loop_pass_disabled[OF assms(1,2)])
  have q: "?quiet \<longrightarrow> task_loop tks t st = Suspended ?sq"
    using task_loop_disabled_exact[OF assms(1,2), of tks] by blast
  have sq: "running ?sq" "\<not> enabled (task_at ?sq t)" "t < length (store ?sq)"
    "t \<in> set (tasks ?sq)" "task_at ?sq t = task_at st t" "world ?sq = world st"
    using assms by (simp_all add: task_at_def)
  from enable_tick[OF sq(1-4), of now1 u1] obtain s1 where
    s1: "task_loop [?t1] t ?sq = Suspended s1" "world s1 = world st" "running s1"
      "enabled (task_at s1 t)" "t < length (store s1)"
      "callback (task_at s1 t) = callback (task_at st t)"
      "run_count (task_at s1 t) = run_count (task_at st t)"
      "last_run (task_at s1 t) = last_run (task_at st t)"
    by (auto simp: sq(5,6))
  have d: "?quiet \<longrightarrow> task_loop (tks @ [?t1]) t st = Suspended s1"
    using q s1(1) by (simp add: task_loop_append)
  have d2: "?quiet \<longrightarrow> task_loop (tks @ [?t1, ?t2]) t st = task_loop [?t2] t s1"
  proof
    assume ?quiet
    with d have "task_loop (tks @ [?t1]) t st = Suspended s1" by blast
    then have "task_loop ((tks @ [?t1]) @ [?t2]) t st = task_loop [?t2] t s1"
      by (simp only: task_loop_append[of "tks @ [?t1]" "[?t2]"] loop_result.case)
    then show "task_loop (tks @ [?t1, ?t2]) t st = task_loop [?t2] t s1" by simp
  qed
  have pD: "?quiet \<longrightarrow>
            (\<exists>st1. task_loop (tks @ [?t1]) t st = Suspended st1 \<and>
                   world st1 = world st \<and> running st1 \<and> enabled (task_at st1 t) \<and>
                   run_count (task_at st1 t) = run_count (task_at st t) \<and>
                   last_run (task_at st1 t) = last_run (task_at st t))"
    using d s1 by blast
  have w2: "world (loop_state (task_loop [?t2] t s1)) = final (callback (task_at st t) (world st))"
    using task_loop_pass_runs_action[OF s1(3,4), of now2 u2] s1(2,6)
    by (cases "task_loop_pass now2 u2 t s1") simp_all
  have pC: "?quiet \<longrightarrow> world (loop_state (task_loop (tks @ [?t1, ?t2]) t st)) =
              final (callback (task_at st t) (world st))"
    using d2 w2 by simp
  have pB: "?quiet \<and> callback (task_at st t) (world st) = Return x w \<longrightarrow>
            (\<exists>st2. task_loop (tks @ [?t1, ?t2]) t st = Suspended st2 \<and>
                   world st2 = w \<and> run_count (task_at st2 t) = run_count (task_at st t) + 1 \<and>
                   last_run (task_at st2 t) = Some now2)"
  proof
    assume a: "?quiet \<and> callback (task_at st t) (world st) = Return x w"
    with s1 have cb: "callback (task_at s1 t) (world s1) = Return x w" by simp
    from task_loop_pass_success[OF s1(3,4,5) cb, of now2 u2] obtain dd s2 where
      "task_loop_pass now2 u2 t s1 = Sleep dd s2" "world s2 = w"
      "run_count (task_at s2 t) = run_count (task_at s1 t) + 1" "last_run (task_at s2 t) = Some now2"
      by blast
    with a d2 s1(7) show "\<exists>st2. task_loop (tks @ [?t1, ?t2]) t st = Suspended st2 \<and>
                   world st2 = w \<and> run_count (task_at st2 t) = run_count (task_at st t) + 1 \<and>
                   last_run (task_at st2 t) = Some now2"
      by simp
  qed
  have p7: "world (pass_state (task_loop_pass now2 u2 t ?st2)) =
           final (callback (task_at st t) (world st))"
    using task_loop_pass_runs_action[of ?st2 t now2 u2] e f(1,2) assms(1) c
    by (cases "task_loop_pass now2 u2 t ?st2") simp_all
  have p8: "callback (task_at st t) (world st) = Return x w \<longrightarrow>
            (\<exists>d st1. task_loop_pass now2 u2 t ?st2 = Sleep d st1 \<and>
               world st1 = w \<and> run_count (task_at st1 t) = run_count (task_at st t) + 1 \<and>
               last_run (task_at st1 t) = Some now2)"
  proof
    assume "callback (task_at st t) (world st) = Return x w"
    with c f have cb: "callback (task_at ?st2 t) (world ?st2) = Return x w" by simp
    from f assms have r: "running ?st2" and l: "t < length (store ?st2)" by simp_all
    from task_loop_pass_success[OF r e l cb, of now2 u2] c
    show "\<exists>d st1. task_loop_pass now2 u2 t ?st2 = Sleep d st1 \<and>
               world st1 = w \<and> run_count (task_at st1 t) = run_count (task_at st t) + 1 \<and>
               last_run (task_at st1 t) = Some now2"
      by simp
  qed
  from c have c': "run_count (task_at ?st2 t) = run_count (task_at st t)"
    "last_run (task_at ?st2 t) = last_run (task_at st t)" by simp_all
  show ?thesis
    apply (intro conjI)
    apply (rule p1)
    apply (rule calculate_next_run_ge_1)
    apply (rule q)
    apply (rule pD)
    apply (rule pC)
    apply (rule pB)
    apply (rule f(1))
    apply (rule c'(1))
    apply (rule c'(2))
    apply (rule p7)
    apply (rule p8)
    done
qed


theorem disabled_task_ticks_without_running_witness:
  "(running disabled_orchestrator \<and> \<not> enabled (task_at disabled_orchestrator 0) \<and>
    0 < length (store disabled_orchestrator) \<and> 0 \<in> set (tasks disabled_orchestrator)) \<and>
   list_all (\<lambda>tk. snd (snd tk) = (\<lambda>s. s)) quiet_ticks \<and>
   callback (task_at disabled_orchestrator 0) (world disabled_orchestrator) = Return () [''post''] \<and>
   logs (loop_state (task_loop quiet_ticks 0 disabled_orchestrator)) =
     logs disabled_orchestrator @
       [Log DEBUG [S ''Task '', S ''post'', S '' next run in '', F 9, S ''s''],
        Log DEBUG [S ''Task '', S ''post'', S '' next run in '', F 11, S ''s''],
        Log DEBUG [S ''Task '', S ''post'', S '' next run in '', F 10, S ''s'']] \<and>
   world (loop_state (task_loop quiet_ticks 0 disabled_orchestrator)) = [] \<and>
   run_count (task_at (loop_state (task_loop quiet_ticks 0 disabled_orchestrator)) 0) = 0 \<and>
   world (loop_state (task_loop (quiet_ticks @ [(4000, 1 / 2, enable_task ''post'')])
                        0 disabled_orchestrator)) = [] \<and>
   (\<exists>st2. task_loop (quiet_ticks @ [(4000, 1 / 2, enable_task ''post''), (5000, 1 / 2, \<lambda>s. s)])
                        0 disabled_orchestrator = Suspended st2 \<and>
      world st2 = [''post''] \<and> run_count (task_at st2 0) = 1 \<and> last_run (task_at st2 0) = Some 5000) \<and>
   world (enable_task ''post'' disabled_orchestrator) = [] \<and>
   (\<exists>d st1. task_loop_pass 5000 (1 / 2) 0 (enable_task ''post'' disabled_orchestrator) = Sleep d st1 \<and>
      world st1 = [''post''] \<and> run_count (task_at st1 0) = 1 \<and> last_run (task_at st1 0) = Some 5000)"
proof -
  let ?D = disabled_orchestrator
  have h: "running ?D" "\<not> enabled (task_at ?D 0)" "0 < length (store ?D)" "0 \<in> set (tasks ?D)"
    by (simp_all add: disabled_orchestrator_eq task_at_def)
  have l: "list_all (\<lambda>tk. snd (snd tk) = (\<lambda>s. s)) quiet_ticks" by (simp add: quiet_ticks_def)
  have n: "name (task_at ?D 0) = ''post''"
    and rc: "run_count (task_at ?D 0) = 0"
    and w: "world ?D = []"
    by (simp_all add: disabled_orchestrator_eq task_at_def)
  have cb: "callback (task_at ?D 0) (world ?D) = Return () [''post'']"
    by (simp add: disabled_orchestrator_eq task_at_def recording_action_def)
  have nr: "calculate_next_run (1 / 4) (task_at ?D 0) ?D = 9"
    "calculate_next_run (3 / 4) (task_at ?D 0) ?D = 11"
    "calculate_next_run (1 / 2) (task_at ?D 0) ?D = 10"
    by (simp_all add: disabled_orchestrator_eq task_at_def calculate_next_run_def uniform_def Let_def)
  note th = disabled_task_ticks_without_running[OF h, of _ _ quiet_ticks 4000 "1 / 2" 5000 "1 / 2"
      "()" "[''post'']", unfolded n]
  from th l have q: "task_loop quiet_ticks 0 ?D =
      Suspended (?D\<lparr>logs := logs ?D @
        map (\<lambda>tk. Log DEBUG [S ''Task '', S ''post'', S '' next run in '',
                              F (calculate_next_run (fst (snd tk)) (task_at ?D 0) ?D), S ''s''])
            quiet_ticks\<rparr>)"
    by blast
  have c0: "logs (loop_state (task_loop quiet_ticks 0 ?D)) =
     logs ?D @
       [Log DEBUG [S ''Task '', S ''post'', S '' next run in '', F 9, S ''s''],
        Log DEBUG [S ''Task '', S ''post'', S '' next run in '', F 11, S ''s''],
        Log DEBUG [S ''Task '', S ''post'', S '' next run in '', F 10, S ''s'']]"
    unfolding q by (simp add: quiet_ticks_def nr)
  have c1: "world (loop_state (task_loop quiet_ticks 0 ?D)) = []"
    and c2: "run_count (task_at (loop_state (task_loop quiet_ticks 0 ?D)) 0) = 0"
    unfolding q using w rc by (simp_all add: task_at_def)
  from th l obtain s1 where "task_loop (quiet_ticks @ [(4000, 1 / 2, enable_task ''post'')]) 0 ?D =
      Suspended s1" "world s1 = world ?D"
    by blast
  then have c3: "world (loop_state (task_loop (quiet_ticks @ [(4000, 1 / 2, enable_task ''post'')])
                        0 ?D)) = []"
    by (simp add: w)
  from th l cb obtain s2 where "task_loop (quiet_ticks @ [(4000, 1 / 2, enable_task ''post''), (5000, 1 / 2, \<lambda>s. s)])
                        0 ?D = Suspended s2" "world s2 = [''post'']"
      "run_count (task_at s2 0) = run_count (task_at ?D 0) + 1" "last_run (task_at s2 0) = Some 5000"
    by blast
  with rc have c4: "\<exists>st2. task_loop (quiet_ticks @ [(4000, 1 / 2, enable_task ''post''), (5000, 1 / 2, \<lambda>s. s)])
                        0 ?D = Suspended st2 \<and>
      world st2 = [''post''] \<and> run_count (task_at st2 0) = 1 \<and> last_run (task_at st2 0) = Some 5000"
    by simp
  from th have "world (enable_task ''post'' ?D) = world ?D" by blast
  with w have c5: "world (enable_task ''post'' ?D) = []" by simp
  from th cb obtain d s3 where "task_loop_pass 5000 (1 / 2) 0 (enable_task ''post'' ?D) = Sleep d s3"
      "world s3 = [''post'']" "run_count (task_at s3 0) = run_count (task_at ?D 0) + 1"
      "last_run (task_at s3 0) = Some 5000"
    by blast
  with rc have c6: "\<exists>d st1. task_loop_pass 5000 (1 / 2) 0 (enable_task ''post'' ?D) = Sleep d st1 \<and>
      world st1 = [''post''] \<and> run_count (task_at st1 0) = 1 \<and> last_run (task_at st1 0) = Some 5000"
    by simp
  from h l cb c0 c1 c2 c3 c4 c5 c6 show ?thesis by blast
qed

subsection \<open>Removing a task\<close>

text \<open>
  C9, as the claim states it, fails. The task \<open>post\<close> is registered and the
  orchestrator started. Its loop makes a pass, \<^verbatim>\<open>remove_task("post")\<close> is called
  while the loop sleeps, and the loop makes two more passes. The status no longer lists
  the task, but the loop is still there and the action has run three times, twice of them
  after the removal.
\<close>

theorem remove_task_loop_counterexample:
  "snd (get_status (loop_state (task_loop removal_ticks 0 posting_orchestrator))) = [] \<and>
   loops (loop_state (task_loop removal_ticks 0 posting_orchestrator)) = [0] \<and>
   world (loop_state (task_loop removal_ticks 0 posting_orchestrator)) = [''post'', ''post'', ''post''] \<and>
   run_count (task_at (loop_state (task_loop removal_ticks 0 posting_orchestrator)) 0) = 3"
  by (simp add: removal_ticks_def posting_orchestrator_eq task_loop_pass_def run_task_def
      remove_task_def get_status_def task_at_def set_task_def recording_action_def
      calculate_next_run_def uniform_def Let_def)

text \<open>
  C9, amended. \<^verbatim>\<open>remove_task(name)\<close> takes every task with that name out of
  \<^verbatim>\<open>self.tasks\<close>, so that the status no longer lists it, and changes nothing else but
  the log: the task objects, the task loops, the running flag and the world stay as they
  are. It does not stop the loop of a removed task: while the orchestrator is running and
  the task is enabled, a pass of that loop still runs the action. With a name that is not
  registered the tasks and the status are unchanged.
\<close>

theorem remove_task_deregisters_loop_continues:
  "tasks (remove_task nm st) = filter (\<lambda>t. name (task_at st t) \<noteq> nm) (tasks st) \<and>
   nm \<notin> set (map status_name (snd (get_status (remove_task nm st)))) \<and>
   store (remove_task nm st) = store st \<and>
   loops (remove_task nm st) = loops st \<and>
   running (remove_task nm st) = running st \<and>
   world (remove_task nm st) = world st \<and>
   (running st \<and> enabled (task_at st t) \<longrightarrow>
      world (pass_state (task_loop_pass now u t (remove_task nm st))) =
        final (callback (task_at st t) (world st))) \<and>
   (nm \<notin> set (map status_name (snd (get_status st))) \<longrightarrow>
      tasks (remove_task nm st) = tasks st \<and> get_status (remove_task nm st) = get_status st)"
proof (intro conjI impI)
  show "tasks (remove_task nm st) = filter (\<lambda>t. name (task_at st t) \<noteq> nm) (tasks st)"
    by (simp add: remove_task_def)
  show "nm \<notin> set (map status_name (snd (get_status (remove_task nm st))))"
    by (auto simp: remove_task_def get_status_def task_at_def)
  show "store (remove_task nm st) = store st" "loops (remove_task nm st) = loops st"
    "running (remove_task nm st) = running st" "world (remove_task nm st) = world st"
    by (simp_all add: remove_task_def)
next
  assume a: "running st \<and> enabled (task_at st t)"
  have t: "task_at (remove_task nm st) t = task_at st t"
    by (simp add: task_at_def remove_task_def)
  from a t have "running (remove_task nm st)" "enabled (task_at (remove_task nm st) t)"
    by (simp_all add: remove_task_fields)
  from task_loop_pass_runs_action[OF this, of now u]
  show "world (pass_state (task_loop_pass now u t (remove_task nm st))) =
        final (callback (task_at st t) (world st))"
    by (cases "task_loop_pass now u t (remove_task nm st)") (simp_all add: t remove_task_fields)
next
  assume "nm \<notin> set (map status_name (snd (get_status st)))"
  then have n: "\<forall>t \<in> set (tasks st). name (task_at st t) \<noteq> nm"
    by (auto simp: get_status_def)
  then show "tasks (remove_task nm st) = tasks st"
    by (simp add: remove_task_def)
  with n show "get_status (remove_task nm st) = get_status st"
    by (simp add: get_status_def remove_task_def task_at_def)
qed

theorem remove_task_deregisters_loop_continues_witness:
  "(running posting_orchestrator \<and> enabled (task_at posting_orchestrator 0)) \<and>
   snd (get_status posting_orchestrator) =
     [\<lparr>status_name = ''post'', status_enabled = True, status_interval = 10,
       status_last_run = None, status_run_count = 0\<rparr>] \<and>
   snd (get_status (remove_task ''post'' posting_orchestrator)) = [] \<and>
   world (pass_state (task_loop_pass 1000 (1 / 2) 0 (remove_task ''post'' posting_orchestrator))) = [''post''] \<and>
   ''other'' \<notin> set (map status_name (snd (get_status posting_orchestrator))) \<and>
   get_status (remove_task ''other'' posting_orchestrator) = get_status posting_orchestrator"
proof -
  have h: "running posting_orchestrator \<and> enabled (task_at posting_orchestrator 0)"
    by (simp add: posting_orchestrator_eq task_at_def)
  have s: "snd (get_status posting_orchestrator) =
     [\<lparr>status_name = ''post'', status_enabled = True, status_interval = 10,
       status_last_run = None, status_run_count = 0\<rparr>]"
    by (simp add: posting_orchestrator_eq get_status_def task_at_def)
  have a: "''other'' \<notin> set (map status_name (snd (get_status posting_orchestrator)))"
    by (simp add: s)
  have cb: "final (callback (task_at posting_orchestrator 0) (world posting_orchestrator)) = [''post'']"
    by (simp add: posting_orchestrator_eq task_at_def recording_action_def)
  have f: "filter (\<lambda>t. name (task_at posting_orchestrator t) \<noteq> ''post'') (tasks posting_orchestrator) = []"
    by (simp add: posting_orchestrator_eq task_at_def)
  note t1 = remove_task_deregisters_loop_continues[of "''post''" posting_orchestrator 0 1000 "1 / 2"]
  note t2 = remove_task_deregisters_loop_continues[of "''other''" posting_orchestrator 0 1000 "1 / 2"]
  from t1 f have "tasks (remove_task ''post'' posting_orchestrator) = []" by simp
  then have c1: "snd (get_status (remove_task ''post'' posting_orchestrator)) = []"
    by (simp add: get_status_def)
  from t1 h cb have c2: "world (pass_state (task_loop_pass 1000 (1 / 2) 0 (remove_task ''post'' posting_orchestrator))) = [''post'']"
    by simp
  from t2 a have c3: "get_status (remove_task ''other'' posting_orchestrator) = get_status posting_orchestrator"
    by blast
  from h s c1 c2 a c3 show ?thesis by blast
qed

end
